theory Spec2Isabelle
  imports Main "HOL-Library.Word" "HOL-Library.Signed_Division"
begin

unbundle bit_operations_syntax

section \<open>Machine integers\<close>

text \<open>
  The C types of \<^verbatim>\<open>scp.c\<close>: \<^verbatim>\<open>unsigned\<close> and \<^verbatim>\<open>int\<close> are 32-bit
  words. Unsigned arithmetic wraps modulo \<open>2 ^ 32\<close>. A signed \<^verbatim>\<open>int\<close> is the same
  word read with \<open>sint\<close>; its arithmetic is modelled as two's-complement wrap-around
  (what the conversion of an out-of-range \<^verbatim>\<open>unsigned\<close> to \<^verbatim>\<open>int\<close> does on the
  supported compilers), compared with \<open><s\<close> and \<open>\<le>s\<close>, and divided by \<open>c_div\<close>,
  which truncates toward zero as C's \<^verbatim>\<open>/\<close> does.
\<close>

type_synonym u8 = "8 word"
type_synonym u16 = "16 word"
type_synonym u32 = "32 word"
type_synonym s32 = "32 word"

definition c_div :: "s32 \<Rightarrow> s32 \<Rightarrow> s32" where
  "c_div a b = word_of_int (sint a sdiv sint b)"

text \<open>C's logical negation \<^verbatim>\<open>!x\<close> on an \<^verbatim>\<open>int\<close>.\<close>

definition c_not :: "s32 \<Rightarrow> s32" where
  "c_not x = (if x = 0 then 1 else 0)"

section \<open>Data model\<close>

text \<open>
  How a run of the program ends abnormally: \<open>Exit_Failure\<close> is \<^verbatim>\<open>err(1, ...)\<close> and
  \<^verbatim>\<open>errx(1, ...)\<close>; \<open>Bad_Access\<close> is a read or write outside an array or
  allocation, which C leaves undefined.
\<close>

datatype fault = Exit_Failure | Bad_Access

text \<open>
  Modelled from the spec: the header \<^verbatim>\<open>scp.h\<close> is not part of the sources. Its
  constants \<^verbatim>\<open>REV_MAX\<close> (at most 5 revolutions) and \<^verbatim>\<open>TRACK_MAX\<close> (168 track
  offsets) and the layout of the disk header, the track record and the session structure
  \<^verbatim>\<open>scp_file_t\<close> follow the spec's data model and file layout; the fields are the ones
  \<^verbatim>\<open>scp.c\<close> uses.
\<close>

definition REV_MAX :: nat where
  "REV_MAX = 5"

definition TRACK_MAX :: nat where
  "TRACK_MAX = 168"

text \<open>
  A 16-bit flux sample as it lies in the file and in the buffer \<^verbatim>\<open>dat\<close>: two bytes
  in memory order. \<open>be16toh\<close> reads them as a big-endian number, on every host.
\<close>

type_synonym sample = "u8 \<times> u8"

definition be16toh :: "sample \<Rightarrow> u16" where
  "be16toh s = 256 * ucast (fst s) + ucast (snd s)"

text \<open>
  A 32-bit field of the file is kept as the number its four bytes encode in little-endian
  order, which is what \<^verbatim>\<open>le32toh\<close> yields on every host.
\<close>

definition le32 :: "u8 list \<Rightarrow> u32" where
  "le32 bs = ucast (bs ! 0) + 256 * ucast (bs ! 1) + 65536 * ucast (bs ! 2)
               + 16777216 * ucast (bs ! 3)"

record rev_desc =
  duration_25ns :: u32
  nr_samples :: u32
  offset :: u32

record track_header =
  trk_sig :: "u8 list"
  track_nr :: u8
  revs :: "rev_desc list"

record disk_header =
  hdr_sig :: "u8 list"
  version :: u8
  disk_type :: u8
  nr_revolutions :: u8
  start_track :: u8
  end_track :: u8
  flags :: u8
  cell_width :: u8
  sides :: u8
  checksum :: u32
  track_offset :: "u32 list"

text \<open>
  The file descriptor. The file is a list of bytes with a read position. The system call
  \<^verbatim>\<open>read\<close> may deliver fewer bytes than asked, may be interrupted, and may fail: the
  list \<open>script\<close> fixes what the next calls do, and once it is used up every call
  delivers all it can. \<^verbatim>\<open>lseek\<close> fails on a descriptor that is not seekable.
\<close>

datatype rd_event = Rd_Short nat | Rd_Retry | Rd_Error

record fdesc =
  content :: "u8 list"
  pos :: nat
  seekable :: bool
  script :: "rd_event list"

record scp_file =
  fd :: fdesc
  header :: disk_header
  track :: track_header
  dat :: "sample list option"
  datsz :: u32
  index_ptr :: "u32 list"
  iter_ptr :: u32
  iter_limit :: u32

section \<open>Reading the file\<close>

datatype rd_result = Rd_Done "u8 list" | Rd_Again | Rd_Failed

text \<open>
  One call \<^verbatim>\<open>read(fd, buf, count)\<close>: \<open>Rd_Done bs\<close> delivers the bytes \<open>bs\<close>
  (none at the end of the file), \<open>Rd_Again\<close> is the result -1 with \<^verbatim>\<open>EAGAIN\<close> or
  \<^verbatim>\<open>EINTR\<close>, \<open>Rd_Failed\<close> the result -1 with any other error.
\<close>

definition sys_read :: "fdesc \<Rightarrow> nat \<Rightarrow> rd_result \<times> fdesc" where
  "sys_read f count =
     (case script f of
        [] \<Rightarrow>
          (let bs = take count (drop (pos f) (content f))
           in (Rd_Done bs, f\<lparr>pos := pos f + length bs\<rparr>))
      | Rd_Short k # evs \<Rightarrow>
          (let bs = take (min count (max 1 k)) (drop (pos f) (content f))
           in (Rd_Done bs, f\<lparr>pos := pos f + length bs, script := evs\<rparr>))
      | Rd_Retry # evs \<Rightarrow> (Rd_Again, f\<lparr>script := evs\<rparr>)
      | Rd_Error # evs \<Rightarrow> (Rd_Failed, f\<lparr>script := evs\<rparr>))"

text \<open>\<^verbatim>\<open>lseek(fd, off, SEEK_SET)\<close>: the new position is \<open>off\<close>, or the call fails.\<close>

definition sys_lseek :: "fdesc \<Rightarrow> nat \<Rightarrow> fdesc option" where
  "sys_lseek f off = (if seekable f then Some (f\<lparr>pos := off\<rparr>) else None)"

text \<open>
  \<^verbatim>\<open>read_exact\<close>: \<open>acc\<close> holds the bytes stored in the destination so far, and the
  result is the whole destination. At the end of the file the rest is set to zero.
\<close>

function read_exact :: "fdesc \<Rightarrow> u8 list \<Rightarrow> nat \<Rightarrow> fault + (u8 list \<times> fdesc)" where
  "read_exact f acc count =
     (if 0 < count then
        (case sys_read f count of
           (Rd_Again, f') \<Rightarrow> read_exact f' acc count
         | (Rd_Failed, f') \<Rightarrow> Inl Exit_Failure
         | (Rd_Done bs, f') \<Rightarrow>
             if bs = [] then read_exact f' (acc @ replicate count 0) (count - count)
             else read_exact f' (acc @ bs) (count - length bs))
      else Inr (acc, f))"
  by pat_completeness auto
termination
  by (relation "measure (\<lambda>(f, acc, count). count + length (script f))")
     (auto simp: sys_read_def Let_def split: list.splits rd_event.splits)

declare read_exact.simps [simp del]

section \<open>Track loader\<close>

text \<open>
  The bytes of a track record laid over the structure \<^verbatim>\<open>sf->track\<close>: the signature,
  the track number, and the descriptors of the first \<open>r\<close> revolutions. The descriptors
  beyond keep what they held.
\<close>

definition load_rev :: "u8 list \<Rightarrow> rev_desc" where
  "load_rev bs =
     \<lparr>duration_25ns = le32 (take 4 bs), nr_samples = le32 (take 4 (drop 4 bs)),
      offset = le32 (take 4 (drop 8 bs))\<rparr>"

definition load_track :: "u8 list \<Rightarrow> nat \<Rightarrow> track_header \<Rightarrow> track_header" where
  "load_track bs r t =
     t\<lparr>trk_sig := take 3 bs, track_nr := bs ! 3,
       revs := map (\<lambda>i. load_rev (take 12 (drop (4 + 12 * i) bs))) [0..<r] @ drop r (revs t)\<rparr>"

definition TRK :: "u8 list" where
  "TRK = [0x54, 0x52, 0x4B]"

text \<open>
  The first loop of \<^verbatim>\<open>scp_select_track\<close>, over the revolutions \<open>rs\<close>: the offset is
  made absolute and the sample counts are summed, modulo \<open>2 ^ 32\<close>.
\<close>

fun scp_convert_revs :: "nat list \<Rightarrow> u32 \<Rightarrow> scp_file \<Rightarrow> scp_file" where
  "scp_convert_revs [] tdh_offset sf = sf"
| "scp_convert_revs (r # rs) tdh_offset sf =
     (let d = revs (track sf) ! r;
          d' = d\<lparr>offset := tdh_offset + offset d\<rparr>
      in scp_convert_revs rs tdh_offset
           (sf\<lparr>track := (track sf)\<lparr>revs := (revs (track sf))[r := d']\<rparr>,
               datsz := datsz sf + nr_samples d'\<rparr>))"

fun samples_of :: "u8 list \<Rightarrow> sample list" where
  "samples_of (a # b # bs) = (a, b) # samples_of bs"
| "samples_of bs = []"

text \<open>
  The second loop: each revolution's samples are read into the next slice of the buffer.
  A slice that does not fit the allocation is a write outside it.
\<close>

fun scp_read_revs :: "nat list \<Rightarrow> scp_file \<Rightarrow> fault + (s32 \<times> scp_file)" where
  "scp_read_revs [] sf = Inr (0, sf)"
| "scp_read_revs (r # rs) sf =
     (let d = revs (track sf) ! r in
      case sys_lseek (fd sf) (unat (offset d)) of
        None \<Rightarrow> Inr (- 1, sf)
      | Some f1 \<Rightarrow>
          (case dat sf of
             None \<Rightarrow> Inl Bad_Access
           | Some buf \<Rightarrow>
               if length buf < unat (datsz sf) + unat (nr_samples d) then Inl Bad_Access
               else
                 (case read_exact f1 [] (unat (nr_samples d) * 2) of
                    Inl e \<Rightarrow> Inl e
                  | Inr (bytes, f2) \<Rightarrow>
                      let buf' = take (unat (datsz sf)) buf @ samples_of bytes
                                   @ drop (unat (datsz sf) + unat (nr_samples d)) buf;
                          sz = datsz sf + nr_samples d
                      in scp_read_revs rs
                           (sf\<lparr>fd := f2, dat := Some buf', datsz := sz,
                               index_ptr := (index_ptr sf)[r := sz]\<rparr>))))"

text \<open>
  \<^verbatim>\<open>scp_select_track\<close>. The parameter \<open>heap\<close> tells for which sizes \<^verbatim>\<open>calloc\<close>
  returns a buffer. The result is the returned \<^verbatim>\<open>int\<close> and the session.
\<close>

definition scp_select_track ::
  "(nat \<Rightarrow> bool) \<Rightarrow> scp_file \<Rightarrow> u32 \<Rightarrow> fault + (s32 \<times> scp_file)" where
  "scp_select_track heap sf tn =
     (if dat sf \<noteq> None \<and> ucast (track_nr (track sf)) = tn then Inr (0, sf)
      else
        let sf1 = sf\<lparr>dat := None, datsz := 0\<rparr> in
        if TRACK_MAX \<le> unat tn then Inl Bad_Access
        else
          let tdh_offset = track_offset (header sf1) ! unat tn in
          case sys_lseek (fd sf1) (unat tdh_offset) of
            None \<Rightarrow> Inr (- 1, sf1)
          | Some f1 \<Rightarrow>
              let nrev = unat (nr_revolutions (header sf1)) in
              if REV_MAX < nrev then Inl Bad_Access
              else
                (case read_exact f1 [] (4 + 12 * nrev) of
                   Inl e \<Rightarrow> Inl e
                 | Inr (bytes, f2) \<Rightarrow>
                     let sf2 = sf1\<lparr>fd := f2, track := load_track bytes nrev (track sf1)\<rparr> in
                     if trk_sig (track sf2) \<noteq> TRK then Inr (- 1, sf2)
                     else if ucast (track_nr (track sf2)) \<noteq> tn then Inr (- 1, sf2)
                     else
                       let sf3 = scp_convert_revs [0..<nrev] tdh_offset sf2 in
                       if \<not> heap (unat (datsz sf3)) then Inl Exit_Failure
                       else
                         scp_read_revs [0..<nrev]
                           (sf3\<lparr>dat := Some (replicate (unat (datsz sf3)) (0, 0)),
                                datsz := 0\<rparr>)))"

definition scp_close :: "scp_file \<Rightarrow> scp_file" where
  "scp_close sf = sf\<lparr>dat := None\<rparr>"

section \<open>Flux stream iterator\<close>

definition scp_reset :: "scp_file \<Rightarrow> scp_file" where
  "scp_reset sf = sf\<lparr>iter_ptr := 0, iter_limit := 0\<rparr>"

text \<open>
  The first statement of the loop body of \<^verbatim>\<open>scp_next_flux\<close>: the restart of the
  cursor. Reading \<^verbatim>\<open>index_ptr\<close> outside the array is a fault.
\<close>

definition scp_restart :: "scp_file \<Rightarrow> u32 \<Rightarrow> u32 \<Rightarrow> fault + (scp_file \<times> u32)" where
  "scp_restart sf rev_nr val =
     (if iter_ptr sf \<ge> iter_limit sf then
        (if unat rev_nr < length (index_ptr sf) then
           Inr (sf\<lparr>iter_limit := index_ptr sf ! unat rev_nr,
                   iter_ptr := (if rev_nr \<noteq> 0 then index_ptr sf ! (unat rev_nr - 1) else 0)\<rparr>,
                0)
         else Inl Bad_Access)
      else Inr (sf, val))"

text \<open>
  One iteration of the loop of \<^verbatim>\<open>scp_next_flux\<close>: restart, read one sample and
  advance the cursor, then return or go round again.
\<close>

datatype flux_step = Flux_Fault fault | Flux_Return u32 scp_file | Flux_Again u32 scp_file

definition scp_flux_step :: "scp_file \<Rightarrow> u32 \<Rightarrow> u32 \<Rightarrow> flux_step" where
  "scp_flux_step sf rev_nr val =
     (case scp_restart sf rev_nr val of
        Inl e \<Rightarrow> Flux_Fault e
      | Inr (sf1, val1) \<Rightarrow>
          (case dat sf1 of
             None \<Rightarrow> Flux_Fault Bad_Access
           | Some buf \<Rightarrow>
               if unat (iter_ptr sf1) < length buf then
                 let t = (ucast (be16toh (buf ! unat (iter_ptr sf1))) :: u32);
                     sf2 = sf1\<lparr>iter_ptr := iter_ptr sf1 + 1\<rparr>
                 in if t \<noteq> 0 then Flux_Return (val1 + t) sf2
                    else Flux_Again (val1 + 0x10000) sf2
               else Flux_Fault Bad_Access))"

text \<open>The loop itself may run forever: \<open>None\<close> is the call that never returns.\<close>

partial_function (option) scp_flux_loop ::
  "scp_file \<Rightarrow> u32 \<Rightarrow> u32 \<Rightarrow> (fault + (u32 \<times> scp_file)) option" where
  "scp_flux_loop sf rev_nr val =
     (case scp_flux_step sf rev_nr val of
        Flux_Fault e \<Rightarrow> Some (Inl e)
      | Flux_Return v sf' \<Rightarrow> Some (Inr (v, sf'))
      | Flux_Again v sf' \<Rightarrow> scp_flux_loop sf' rev_nr v)"

definition scp_next_flux :: "scp_file \<Rightarrow> u32 \<Rightarrow> (fault + (u32 \<times> scp_file)) option" where
  "scp_next_flux sf rev_nr = scp_flux_loop sf rev_nr 0"


section \<open>Software PLL\<close>

definition CLOCK_CENTRE :: s32 where
  "CLOCK_CENTRE = 2000"

definition CLOCK_MAX_ADJ :: s32 where
  "CLOCK_MAX_ADJ = 10"

definition CLOCK_MIN :: "s32 \<Rightarrow> s32" where
  "CLOCK_MIN c = c_div (c * (100 - CLOCK_MAX_ADJ)) 100"

definition CLOCK_MAX :: "s32 \<Rightarrow> s32" where
  "CLOCK_MAX c = c_div (c * (100 + CLOCK_MAX_ADJ)) 100"

definition PERIOD_ADJ_PCT :: s32 where
  "PERIOD_ADJ_PCT = 5"

definition PHASE_ADJ_PCT :: s32 where
  "PHASE_ADJ_PCT = 60"

text \<open>
  The structure \<^verbatim>\<open>pll_t\<close>. Its pointer to the session is not a field here: the
  session is passed along with the PLL state and returned updated.
\<close>

record pll =
  pll_rev :: s32
  clock :: s32
  flux :: s32
  time :: s32
  clocked_zeros :: s32

definition pll_init :: "s32 \<Rightarrow> pll" where
  "pll_init rev_nr =
     \<lparr>pll_rev = rev_nr, clock = CLOCK_CENTRE, flux = 0, time = 0, clocked_zeros = 0\<rparr>"

text \<open>
  The first loop of \<^verbatim>\<open>pll_next_bit\<close>. The product \<^verbatim>\<open>25 * scp_next_flux(...)\<close> is
  unsigned, and so is its sum with \<^verbatim>\<open>flux\<close>, which is then stored as an \<^verbatim>\<open>int\<close>.
\<close>

partial_function (option) pll_accumulate ::
  "pll \<Rightarrow> scp_file \<Rightarrow> (fault + (pll \<times> scp_file)) option" where
  "pll_accumulate p sf =
     (if flux p <s c_div (clock p) 2 then
        (case scp_next_flux sf (pll_rev p) of
           None \<Rightarrow> None
         | Some (Inl e) \<Rightarrow> Some (Inl e)
         | Some (Inr (v, sf')) \<Rightarrow> pll_accumulate (p\<lparr>flux := flux p + 25 * v\<rparr>) sf')
      else Some (Inr (p, sf)))"

text \<open>The rest of \<^verbatim>\<open>pll_next_bit\<close>, after the loop: the returned bit and the new state.\<close>

definition pll_clock_bit :: "pll \<Rightarrow> s32 \<times> pll" where
  "pll_clock_bit p0 =
     (let p1 = p0\<lparr>time := time p0 + clock p0\<rparr>;
          p2 = p1\<lparr>flux := flux p1 - clock p1\<rparr>
      in if c_div (clock p2) 2 \<le>s flux p2 then
           (0, p2\<lparr>clocked_zeros := clocked_zeros p2 + 1\<rparr>)
         else
           let p3 = (if clocked_zeros p2 \<le>s 3
                     then p2\<lparr>clock := clock p2 + c_div (flux p2 * PERIOD_ADJ_PCT) 100\<rparr>
                     else p2\<lparr>clock := clock p2
                            + c_div ((CLOCK_CENTRE - clock p2) * PERIOD_ADJ_PCT) 100\<rparr>);
               p4 = (if clock p3 <s CLOCK_MIN CLOCK_CENTRE
                     then p3\<lparr>clock := CLOCK_MIN CLOCK_CENTRE\<rparr> else p3);
               p5 = (if CLOCK_MAX CLOCK_CENTRE <s clock p4
                     then p4\<lparr>clock := CLOCK_MAX CLOCK_CENTRE\<rparr> else p4);
               new_flux = c_div (flux p5 * (100 - PHASE_ADJ_PCT)) 100;
               p6 = p5\<lparr>time := time p5 + (flux p5 - new_flux)\<rparr>;
               p7 = p6\<lparr>flux := new_flux\<rparr>
           in (1, p7\<lparr>clocked_zeros := 0\<rparr>))"

definition pll_next_bit ::
  "pll \<Rightarrow> scp_file \<Rightarrow> (fault + (s32 \<times> pll \<times> scp_file)) option" where
  "pll_next_bit p sf =
     (case pll_accumulate p sf of
        None \<Rightarrow> None
      | Some (Inl e) \<Rightarrow> Some (Inl e)
      | Some (Inr (p1, sf1)) \<Rightarrow>
          (case pll_clock_bit p1 of (b, p2) \<Rightarrow> Some (Inr (b, p2, sf1))))"


section \<open>Track decode orchestrator\<close>

text \<open>
  Modelled from the spec: the header \<^verbatim>\<open>mfm.h\<close> and the MFM writer are not part of the
  sources. The spec gives the sink's interface: \<^verbatim>\<open>reset\<close>, \<^verbatim>\<open>write_halfbit\<close>,
  \<^verbatim>\<open>write_byte\<close> (used for filler only) and the observable \<^verbatim>\<open>last\<close>, the
  last-written bit. The model records what the sink received since its last reset: the
  half-bits in \<open>halfbits\<close>, the filler bytes in \<open>filler\<close>.
\<close>

record mfm_writer =
  halfbits :: "s32 list"
  filler :: "u8 list"
  last_bit :: s32

definition mfm_write_reset :: "mfm_writer \<Rightarrow> mfm_writer" where
  "mfm_write_reset w = \<lparr>halfbits = [], filler = [], last_bit = 0\<rparr>"

definition mfm_write_halfbit :: "mfm_writer \<Rightarrow> s32 \<Rightarrow> mfm_writer" where
  "mfm_write_halfbit w b = w\<lparr>halfbits := halfbits w @ [b], last_bit := b\<rparr>"

definition mfm_write_byte :: "mfm_writer \<Rightarrow> u8 \<Rightarrow> mfm_writer" where
  "mfm_write_byte w b = w\<lparr>filler := filler w @ [b]\<rparr>"

text \<open>The \<^verbatim>\<open>do ... while\<close> loop of \<^verbatim>\<open>scp_write_mfm\<close>, with its counter \<open>n\<close>.\<close>

partial_function (option) scp_decode_loop ::
  "pll \<Rightarrow> scp_file \<Rightarrow> mfm_writer \<Rightarrow> s32
     \<Rightarrow> (fault + (s32 \<times> mfm_writer \<times> pll \<times> scp_file)) option" where
  "scp_decode_loop p sf w n =
     (case pll_next_bit p sf of
        None \<Rightarrow> None
      | Some (Inl e) \<Rightarrow> Some (Inl e)
      | Some (Inr (halfbit, p', sf')) \<Rightarrow>
          if iter_ptr sf' < iter_limit sf'
          then scp_decode_loop p' sf' (mfm_write_halfbit w halfbit) (n + 1)
          else Some (Inr (n + 1, mfm_write_halfbit w halfbit, p', sf')))"

text \<open>
  The loop that fills the rest of the track. Each test \<^verbatim>\<open>n++ < 12800*8\<close> compares
  the old \<open>n\<close> and then increments it.
\<close>

function scp_fill :: "mfm_writer \<Rightarrow> s32 \<Rightarrow> mfm_writer" where
  "scp_fill w n =
     (if n <s 12800 * 8 then
        (let w1 = mfm_write_halfbit w (c_not (last_bit w)) in
         if n + 1 <s 12800 * 8
         then scp_fill (mfm_write_halfbit w1 (c_not (last_bit w1))) (n + 1 + 1)
         else scp_fill w1 (n + 1 + 1))
      else w)"
  by pat_completeness auto
termination
proof (relation "measure (\<lambda>(w, n). nat (12800 * 8 - sint n))")
  show "wf (measure (\<lambda>(w, n). nat (12800 * 8 - sint n)))" by simp
next
  fix w :: mfm_writer and n :: s32 and w1
  assume a: "n <s 12800 * 8"
  have lo: "- (2 ^ 31) \<le> sint n" using sint_ge [of n] by simp
  from a have hi: "sint n < 102400" by (simp add: word_sless_alt)
  have "sint (n + 1 + 1) = signed_take_bit 31 (sint n + 2)"
    by (simp add: sint_word_ariths add.assoc)
  also have "\<dots> = sint n + 2"
    using lo hi by (intro signed_take_bit_int_eq_self) simp_all
  finally have s: "sint (n + 1 + 1) = sint n + 2" .
  show "((mfm_write_halfbit w1 (c_not (last_bit w1)), n + 1 + 1), (w, n))
          \<in> measure (\<lambda>(w, n). nat (12800 * 8 - sint n))"
    using s hi by simp
  show "((w1, n + 1 + 1), (w, n)) \<in> measure (\<lambda>(w, n). nat (12800 * 8 - sint n))"
    using s hi by simp
qed

declare scp_fill.simps [simp del]

text \<open>The filler branch: 6400 zero bytes.\<close>

definition scp_empty_track :: "mfm_writer \<Rightarrow> mfm_writer" where
  "scp_empty_track w = ((\<lambda>w'. mfm_write_byte w' 0) ^^ 6400) w"

text \<open>The decoding branch, for a track that has been selected.\<close>

definition scp_decode_track ::
  "scp_file \<Rightarrow> mfm_writer \<Rightarrow> s32 \<Rightarrow> (fault + (mfm_writer \<times> scp_file)) option" where
  "scp_decode_track sf w rev_nr =
     (case pll_next_bit (pll_init rev_nr) (scp_reset sf) of
        None \<Rightarrow> None
      | Some (Inl e) \<Rightarrow> Some (Inl e)
      | Some (Inr (ignored, p1, sf1)) \<Rightarrow>
          (case scp_decode_loop p1 sf1 w 0 of
             None \<Rightarrow> None
           | Some (Inl e) \<Rightarrow> Some (Inl e)
           | Some (Inr (n, w1, p2, sf2)) \<Rightarrow> Some (Inr (scp_fill w1 n, sf2))))"

text \<open>
  The body of the loop over the tracks in \<^verbatim>\<open>scp_write_mfm\<close>, for the track \<open>tn\<close>.
\<close>

definition scp_write_track ::
  "(nat \<Rightarrow> bool) \<Rightarrow> scp_file \<Rightarrow> mfm_writer \<Rightarrow> s32 \<Rightarrow> s32
     \<Rightarrow> (fault + (mfm_writer \<times> scp_file)) option" where
  "scp_write_track heap sf writer rev_nr tn =
     (let w0 = mfm_write_reset writer in
      if tn <s ucast (start_track (header sf)) \<or> ucast (end_track (header sf)) \<le>s tn
      then Some (Inr (scp_empty_track w0, sf))
      else
        (case scp_select_track heap sf tn of
           Inl e \<Rightarrow> Some (Inl e)
         | Inr (r, sf1) \<Rightarrow>
             if r <s 0 then Some (Inr (scp_empty_track w0, sf1))
             else scp_decode_track sf1 w0 rev_nr))"


section \<open>The PLL step in the words of the specification\<close>

text \<open>
  The specification's section 4.3 gives one call of \<^verbatim>\<open>next_bit\<close> as an algorithm over
  the state \<open>clock\<close>, \<open>flux\<close>, \<open>time\<close>, \<open>clocked_zeros\<close>, in signed integer
  arithmetic with truncating division. Its step 2, the accumulation, is: while
  \<open>flux < clock/2\<close>, add \<open>25 * next_flux(revolution)\<close> to \<open>flux\<close>. It involves the
  flux, the clock, which it does not change, and the flux stream of the revolution.
\<close>

partial_function (option) spec_accumulate ::
  "s32 \<Rightarrow> s32 \<Rightarrow> u32 \<Rightarrow> scp_file \<Rightarrow> (fault + (s32 \<times> scp_file)) option" where
  "spec_accumulate f c rev_nr sf =
     (if f <s c_div c 2 then
        (case scp_next_flux sf rev_nr of
           None \<Rightarrow> None
         | Some (Inl e) \<Rightarrow> Some (Inl e)
         | Some (Inr (v, sf')) \<Rightarrow> spec_accumulate (f + 25 * v) c rev_nr sf')
      else Some (Inr (f, sf)))"

text \<open>
  The steps 3 to 5 are formulas: advance, classify, then for a one cell the period
  correction (5 percent of the phase error, or of the distance to 2000 when more than three
  zero cells went before), the clamp to 1800 .. 2200 and the phase correction that keeps
  40 percent of the error.
\<close>

definition spec_clamp :: "s32 \<Rightarrow> s32" where
  "spec_clamp c = (if c <s 1800 then 1800 else if 2200 <s c then 2200 else c)"

definition spec_classify :: "pll \<Rightarrow> s32 \<times> pll" where
  "spec_classify p =
     (let t = time p + clock p;
          f = flux p - clock p
      in if c_div (clock p) 2 \<le>s f then
           (0, p\<lparr>flux := f, time := t, clocked_zeros := clocked_zeros p + 1\<rparr>)
         else
           let c = spec_clamp (clock p + (if clocked_zeros p \<le>s 3 then c_div (f * 5) 100
                                          else c_div ((2000 - clock p) * 5) 100));
               new_flux = c_div (f * 40) 100
           in (1, p\<lparr>clock := c, flux := new_flux, time := t + (f - new_flux),
                   clocked_zeros := 0\<rparr>))"

text \<open>One call: the accumulation, then the steps 3 to 5 on the state with the new flux.\<close>

definition spec_next_bit ::
  "pll \<Rightarrow> scp_file \<Rightarrow> (fault + (s32 \<times> pll \<times> scp_file)) option" where
  "spec_next_bit p sf =
     (case spec_accumulate (flux p) (clock p) (pll_rev p) sf of
        None \<Rightarrow> None
      | Some (Inl e) \<Rightarrow> Some (Inl e)
      | Some (Inr (f, sf1)) \<Rightarrow>
          Some (Inr (fst (spec_classify (p\<lparr>flux := f\<rparr>)),
                     snd (spec_classify (p\<lparr>flux := f\<rparr>)), sf1)))"

section \<open>Notions for the statements\<close>

text \<open>\<open>n\<close> calls of \<^verbatim>\<open>pll_next_bit\<close> in a row, and the bits they return.\<close>

primrec pll_calls ::
  "nat \<Rightarrow> pll \<Rightarrow> scp_file \<Rightarrow> (fault + (s32 list \<times> pll \<times> scp_file)) option" where
  "pll_calls 0 p sf = Some (Inr ([], p, sf))"
| "pll_calls (Suc n) p sf =
     (case pll_next_bit p sf of
        None \<Rightarrow> None
      | Some (Inl e) \<Rightarrow> Some (Inl e)
      | Some (Inr (b, p1, sf1)) \<Rightarrow>
          (case pll_calls n p1 sf1 of
             None \<Rightarrow> None
           | Some (Inl e) \<Rightarrow> Some (Inl e)
           | Some (Inr (bs, p2, sf2)) \<Rightarrow> Some (Inr (b # bs, p2, sf2))))"

definition clock_in_band :: "pll \<Rightarrow> bool" where
  "clock_in_band p = (1800 \<le>s clock p \<and> clock p \<le>s 2200)"

text \<open>
  The slice of revolution \<open>rev_nr\<close> in the buffer, as the index array delimits it. It is
  in order when the index entries exist, the slice is not empty and lies inside the
  buffer. The cursor is in order for the revolution when a restart is due (as after
  \<^verbatim>\<open>scp_reset\<close>, or at the end of the slice) or when it stands inside the slice with
  the slice's end as its limit.
\<close>

definition slice_start :: "scp_file \<Rightarrow> u32 \<Rightarrow> u32" where
  "slice_start sf rev_nr = (if rev_nr \<noteq> 0 then index_ptr sf ! (unat rev_nr - 1) else 0)"

definition slice_end :: "scp_file \<Rightarrow> u32 \<Rightarrow> u32" where
  "slice_end sf rev_nr = index_ptr sf ! unat rev_nr"

definition slice :: "scp_file \<Rightarrow> u32 \<Rightarrow> sample list" where
  "slice sf rev_nr =
     (case dat sf of
        None \<Rightarrow> []
      | Some buf \<Rightarrow>
          take (unat (slice_end sf rev_nr) - unat (slice_start sf rev_nr))
            (drop (unat (slice_start sf rev_nr)) buf))"

definition slice_ok :: "scp_file \<Rightarrow> u32 \<Rightarrow> bool" where
  "slice_ok sf rev_nr =
     (unat rev_nr < length (index_ptr sf) \<and> slice_start sf rev_nr < slice_end sf rev_nr \<and>
      (case dat sf of None \<Rightarrow> False | Some buf \<Rightarrow> unat (slice_end sf rev_nr) \<le> length buf))"

definition cursor_ok :: "scp_file \<Rightarrow> u32 \<Rightarrow> bool" where
  "cursor_ok sf rev_nr =
     (iter_limit sf \<le> iter_ptr sf \<or>
      iter_limit sf = slice_end sf rev_nr \<and> slice_start sf rev_nr \<le> iter_ptr sf)"

text \<open>
  Where the next iteration of the loop reads its sample, and the limit it then has: the
  cursor as it stands, or the slice of the revolution when a restart is due.
\<close>

definition next_ptr :: "scp_file \<Rightarrow> u32 \<Rightarrow> u32" where
  "next_ptr sf rev_nr =
     (if iter_limit sf \<le> iter_ptr sf then slice_start sf rev_nr else iter_ptr sf)"

definition next_limit :: "scp_file \<Rightarrow> u32 \<Rightarrow> u32" where
  "next_limit sf rev_nr =
     (if iter_limit sf \<le> iter_ptr sf then slice_end sf rev_nr else iter_limit sf)"

text \<open>
  The indices of \<^verbatim>\<open>dat\<close> that the first \<open>n\<close> iterations of the loop of one call of
  \<^verbatim>\<open>scp_next_flux\<close> read.
\<close>

fun scp_flux_reads :: "nat \<Rightarrow> scp_file \<Rightarrow> u32 \<Rightarrow> u32 \<Rightarrow> nat list" where
  "scp_flux_reads 0 sf rev_nr val = []"
| "scp_flux_reads (Suc n) sf rev_nr val =
     (case scp_restart sf rev_nr val of
        Inl e \<Rightarrow> []
      | Inr (sf1, val1) \<Rightarrow>
          unat (iter_ptr sf1) #
            (case scp_flux_step sf rev_nr val of
               Flux_Again v sf' \<Rightarrow> scp_flux_reads n sf' rev_nr v
             | _ \<Rightarrow> []))"

text \<open>
  The states in which the loop of \<^verbatim>\<open>scp_next_flux\<close> begins its iterations, through any
  number of calls for the revolution \<open>rev_nr\<close> that follow a \<^verbatim>\<open>scp_reset\<close>: the
  session and the sum accumulated so far. After an iteration that returns, the next one is
  the first of the following call, which starts from 0. \<open>None\<close> is a fault.
\<close>

fun scp_flux_iterations :: "nat \<Rightarrow> scp_file \<Rightarrow> u32 \<Rightarrow> (scp_file \<times> u32) option" where
  "scp_flux_iterations 0 sf rev_nr = Some (scp_reset sf, 0)"
| "scp_flux_iterations (Suc n) sf rev_nr =
     (case scp_flux_iterations n sf rev_nr of
        None \<Rightarrow> None
      | Some (sf1, val) \<Rightarrow>
          (case scp_flux_step sf1 rev_nr val of
             Flux_Fault e \<Rightarrow> None
           | Flux_Return v sf2 \<Rightarrow> Some (sf2, 0)
           | Flux_Again v sf2 \<Rightarrow> Some (sf2, v)))"

text \<open>A slice has flux when one of its samples is not zero.\<close>

definition slice_has_flux :: "scp_file \<Rightarrow> u32 \<Rightarrow> bool" where
  "slice_has_flux sf rev_nr = (\<exists>s \<in> set (slice sf rev_nr). be16toh s \<noteq> 0)"

text \<open>
  The flux intervals that a list of samples holds, in ticks: a non-zero sample closes an
  interval, to which every zero sample before it, back to the previous non-zero sample or
  to the start of the list, adds 0x10000; \<open>k\<close> counts the zero samples of the run so
  far. Zero samples at the end of the list close no interval.
\<close>

fun flux_intervals :: "nat \<Rightarrow> sample list \<Rightarrow> nat list" where
  "flux_intervals k [] = []"
| "flux_intervals k (s # ss) =
     (if be16toh s = 0 then flux_intervals (Suc k) ss
      else (k * 0x10000 + unat (be16toh s)) # flux_intervals 0 ss)"

definition slice_intervals :: "scp_file \<Rightarrow> u32 \<Rightarrow> nat list" where
  "slice_intervals sf rev_nr = flux_intervals 0 (slice sf rev_nr)"

text \<open>
  The intervals of a slice fit when each of them, taken in nanoseconds and added to a flux
  below 1100 ns, which is half the longest clock period, stays in the range of an
  \<^verbatim>\<open>int\<close>.
\<close>

definition intervals_fit :: "scp_file \<Rightarrow> u32 \<Rightarrow> bool" where
  "intervals_fit sf rev_nr =
     list_all (\<lambda>x. 25 * x + 1100 \<le> 2 ^ 31) (slice_intervals sf rev_nr)"

text \<open>
  The image file as the specification lays it out, read with zeros past its end: a byte
  of the file, and a 32-bit little-endian field.
\<close>

definition file_byte :: "fdesc \<Rightarrow> nat \<Rightarrow> u8" where
  "file_byte f i = (if i < length (content f) then content f ! i else 0)"

definition file_le32 :: "fdesc \<Rightarrow> nat \<Rightarrow> nat" where
  "file_le32 f i =
     unat (file_byte f i) + 256 * unat (file_byte f (i + 1))
       + 65536 * unat (file_byte f (i + 2)) + 16777216 * unat (file_byte f (i + 3))"

text \<open>
  The record of track \<open>tn\<close> lies at the track's offset: the signature \<^verbatim>\<open>TRK\<close>, the
  track index, then twelve bytes for each revolution, which are its duration, its number
  of samples, and the offset of its samples from the start of the record. The samples are
  two bytes each, in the order of the file.
\<close>

definition record_at :: "scp_file \<Rightarrow> u32 \<Rightarrow> nat" where
  "record_at sf tn = unat (track_offset (header sf) ! unat tn)"

definition rev_count :: "scp_file \<Rightarrow> u32 \<Rightarrow> nat \<Rightarrow> nat" where
  "rev_count sf tn r = file_le32 (fd sf) (record_at sf tn + 4 + 12 * r + 4)"

definition rev_data_at :: "scp_file \<Rightarrow> u32 \<Rightarrow> nat \<Rightarrow> nat" where
  "rev_data_at sf tn r =
     (record_at sf tn + file_le32 (fd sf) (record_at sf tn + 4 + 12 * r + 8)) mod 2 ^ 32"

definition rev_data :: "scp_file \<Rightarrow> u32 \<Rightarrow> nat \<Rightarrow> sample list" where
  "rev_data sf tn r =
     map (\<lambda>i. (file_byte (fd sf) (rev_data_at sf tn r + 2 * i),
                file_byte (fd sf) (rev_data_at sf tn r + 2 * i + 1)))
       [0..<rev_count sf tn r]"

definition track_data :: "scp_file \<Rightarrow> u32 \<Rightarrow> sample list" where
  "track_data sf tn = concat (map (rev_data sf tn) [0..<unat (nr_revolutions (header sf))])"

definition track_samples :: "scp_file \<Rightarrow> u32 \<Rightarrow> nat" where
  "track_samples sf tn = sum_list (map (rev_count sf tn) [0..<unat (nr_revolutions (header sf))])"

definition record_valid :: "scp_file \<Rightarrow> u32 \<Rightarrow> bool" where
  "record_valid sf tn =
     (file_byte (fd sf) (record_at sf tn) = 0x54 \<and> file_byte (fd sf) (record_at sf tn + 1) = 0x52
      \<and> file_byte (fd sf) (record_at sf tn + 2) = 0x4B
      \<and> ucast (file_byte (fd sf) (record_at sf tn + 3)) = tn)"

section \<open>Example sessions\<close>

text \<open>The session as \<^verbatim>\<open>scp_open\<close> clears it, before the header is read.\<close>

definition zero_session :: scp_file where
  "zero_session =
     \<lparr>fd = \<lparr>content = [], pos = 0, seekable = True, script = []\<rparr>,
      header = \<lparr>hdr_sig = [0, 0, 0], version = 0, disk_type = 0, nr_revolutions = 0,
                start_track = 0, end_track = 0, flags = 0, cell_width = 0, sides = 0,
                checksum = 0, track_offset = replicate TRACK_MAX 0\<rparr>,
      track = \<lparr>trk_sig = [0, 0, 0], track_nr = 0,
               revs = replicate REV_MAX \<lparr>duration_25ns = 0, nr_samples = 0, offset = 0\<rparr>\<rparr>,
      dat = None, datsz = 0, index_ptr = replicate REV_MAX 0, iter_ptr = 0, iter_limit = 0\<rparr>"

text \<open>
  A loaded track with one revolution: a zero sample, the sample 1, two zero samples and the
  sample 3. Its intervals are 0x10001 and 0x20003 ticks.
\<close>

definition overflow_session :: scp_file where
  "overflow_session =
     zero_session\<lparr>dat := Some [(0, 0), (0, 1), (0, 0), (0, 0), (0, 3)], datsz := 5,
                  index_ptr := [5, 0, 0, 0, 0]\<rparr>"

text \<open>One revolution of three samples: 2100 ns, 1900 ns and 2000 ns.\<close>

definition steady_session :: scp_file where
  "steady_session =
     zero_session\<lparr>dat := Some [(0, 84), (0, 76), (0, 80)], datsz := 3,
                  index_ptr := [3, 0, 0, 0, 0]\<rparr>"

text \<open>Two revolutions, of one and of two samples.\<close>

definition two_rev_session :: scp_file where
  "two_rev_session =
     zero_session\<lparr>dat := Some [(0, 80), (0, 81), (0, 82)], datsz := 3,
                  index_ptr := [1, 3, 0, 0, 0]\<rparr>"

text \<open>
  One revolution of 32769 samples: the sample 1, then 32767 zero samples closed by the
  sample 65535. Its two intervals are 1 and \<open>2 ^ 31 - 1\<close> ticks.
\<close>

definition wrap_session :: scp_file where
  "wrap_session =
     zero_session\<lparr>dat := Some ((0, 1) # replicate 32767 (0, 0) @ [(255, 255)]),
                  datsz := 32769, index_ptr := [32769, 0, 0, 0, 0]\<rparr>"

text \<open>
  The states of the accumulation loop on that session, from which it never leaves: the
  flux is 0 or \<open>- 2 ^ 31\<close> when a restart is due, and 25 more behind the first sample.
\<close>

definition wrap_stuck :: "pll \<Rightarrow> scp_file \<Rightarrow> bool" where
  "wrap_stuck p sf =
     (pll_rev p = 0 \<and> clock p = 2000 \<and> dat sf = dat wrap_session
      \<and> index_ptr sf = index_ptr wrap_session
      \<and> (iter_limit sf \<le> iter_ptr sf \<and> (flux p = 0 \<or> flux p = 0x80000000)
          \<or> iter_ptr sf = 1 \<and> iter_limit sf = 32769 \<and> (flux p = 25 \<or> flux p = 0x80000019)))"

text \<open>
  A loaded track 0 whose only revolution is one interval of 65537 ticks: the natural
  decode loop ends after one half-bit.
\<close>

definition short_session :: scp_file where
  "short_session =
     zero_session\<lparr>header := (header zero_session)\<lparr>nr_revolutions := 1, end_track := 1\<rparr>,
                  track := (track zero_session)\<lparr>trk_sig := TRK\<rparr>,
                  dat := Some [(0, 0), (0, 1)], datsz := 2, index_ptr := [2, 0, 0, 0, 0]\<rparr>"

text \<open>
  A loaded track 0 whose only revolution is an interval of 9043969 ticks (138 zero samples
  and the sample 1), which is 226099225 ns, followed by an interval of 80 ticks.
\<close>

definition long_session :: scp_file where
  "long_session =
     zero_session\<lparr>header := (header zero_session)\<lparr>nr_revolutions := 1, end_track := 1\<rparr>,
                  track := (track zero_session)\<lparr>trk_sig := TRK\<rparr>,
                  dat := Some (replicate 138 (0, 0) @ [(0, 1), (0, 80)]), datsz := 140,
                  index_ptr := [140, 0, 0, 0, 0]\<rparr>"

text \<open>
  A loaded track 0 whose only revolution is the two samples 79 and 1: intervals of 1975 ns
  and 25 ns, which together make one clock period.
\<close>

definition tick_session :: scp_file where
  "tick_session =
     zero_session\<lparr>header := (header zero_session)\<lparr>nr_revolutions := 1, end_track := 1\<rparr>,
                  track := (track zero_session)\<lparr>trk_sig := TRK\<rparr>,
                  dat := Some [(0, 79), (0, 1)], datsz := 2, index_ptr := [2, 0, 0, 0, 0]\<rparr>"

text \<open>
  The states of the decode loop on that session, from which it never leaves: the clock is
  1999, the flux is one of three numbers, and the cursor stands before the second sample.
\<close>

definition tick_stuck :: "pll \<Rightarrow> scp_file \<Rightarrow> bool" where
  "tick_stuck p sf =
     (pll_rev p = 0 \<and> clock p = 1999 \<and> clocked_zeros p = 0
      \<and> (flux p = - 10 \<or> flux p = - 3 \<or> flux p = 0)
      \<and> dat sf = dat tick_session \<and> index_ptr sf = index_ptr tick_session
      \<and> iter_ptr sf = 1 \<and> iter_limit sf = 2)"

text \<open>
  Two loaded tracks with one long interval each: 1310 zero samples and the sample 1, which
  is 85852161 ticks or 2146304025 ns, and 1311 zero samples and the sample 1, which is
  85917697 ticks, more than \<open>2 ^ 31\<close> ns.
\<close>

definition edge_session :: scp_file where
  "edge_session =
     zero_session\<lparr>dat := Some (replicate 1310 (0, 0) @ [(0, 1)]), datsz := 1311,
                  index_ptr := [1311, 0, 0, 0, 0]\<rparr>"

definition past_edge_session :: scp_file where
  "past_edge_session =
     zero_session\<lparr>dat := Some (replicate 1311 (0, 0) @ [(0, 1)]), datsz := 1312,
                  index_ptr := [1312, 0, 0, 0, 0]\<rparr>"

text \<open>A sink that has received nothing.\<close>

definition blank_writer :: mfm_writer where
  "blank_writer = \<lparr>halfbits = [], filler = [], last_bit = 0\<rparr>"

text \<open>The bytes of the file from the read position on.\<close>

definition unread :: "fdesc \<Rightarrow> u8 list" where
  "unread f = drop (pos f) (content f)"

text \<open>
  An image file that is cut off: 688 bytes where the disk header lies, at offset 688 the
  record of track 0 with one revolution of three samples at offset 16 of the record, and
  then only three of the six bytes of the samples.
\<close>

definition cut_image :: "u8 list" where
  "cut_image =
     replicate 688 0
     @ [0x54, 0x52, 0x4B, 0,  0, 0, 0, 0,  3, 0, 0, 0,  16, 0, 0, 0]
     @ [0x12, 0x34, 0x56]"

text \<open>
  The session that \<^verbatim>\<open>scp_open\<close> leaves for that image, on a descriptor whose next
  calls of \<^verbatim>\<open>read\<close> are interrupted and short.
\<close>

definition cut_session :: scp_file where
  "cut_session =
     zero_session\<lparr>fd := \<lparr>content = cut_image, pos = 688, seekable = True,
                          script = [Rd_Retry, Rd_Short 1]\<rparr>,
                  header := (header zero_session)\<lparr>hdr_sig := [0x53, 0x43, 0x50],
                     nr_revolutions := 1, end_track := 1,
                     track_offset := (replicate TRACK_MAX 0)[0 := 688]\<rparr>\<rparr>"

text \<open>
  An image file: 688 bytes where the disk header lies, then at offset 688 the record of
  track 0 with two revolutions, of no sample and of one sample, both with their samples at
  offset 28 of the record, then one zero sample.
\<close>

definition scp_image :: "u8 list" where
  "scp_image =
     replicate 688 0
     @ [0x54, 0x52, 0x4B, 0,  0, 0, 0, 0,  0, 0, 0, 0,  28, 0, 0, 0,
        0, 0, 0, 0,  1, 0, 0, 0,  28, 0, 0, 0]
     @ [0, 0]"

text \<open>The session that \<^verbatim>\<open>scp_open\<close> leaves for that image.\<close>

definition empty_rev_session :: scp_file where
  "empty_rev_session =
     zero_session\<lparr>fd := \<lparr>content = scp_image, pos = 688, seekable = True, script = []\<rparr>,
                  header := (header zero_session)\<lparr>hdr_sig := [0x53, 0x43, 0x50],
                     nr_revolutions := 2, end_track := 1,
                     track_offset := (replicate TRACK_MAX 0)[0 := 688]\<rparr>\<rparr>"

text \<open>The session once track 0 of the image is loaded.\<close>

definition empty_rev_loaded :: scp_file where
  "empty_rev_loaded =
     empty_rev_session\<lparr>fd := \<lparr>content = scp_image, pos = 718, seekable = True, script = []\<rparr>,
       track := \<lparr>trk_sig = TRK, track_nr = 0,
                  revs = [\<lparr>duration_25ns = 0, nr_samples = 0, offset = 716\<rparr>,
                          \<lparr>duration_25ns = 0, nr_samples = 1, offset = 716\<rparr>,
                          \<lparr>duration_25ns = 0, nr_samples = 0, offset = 0\<rparr>,
                          \<lparr>duration_25ns = 0, nr_samples = 0, offset = 0\<rparr>,
                          \<lparr>duration_25ns = 0, nr_samples = 0, offset = 0\<rparr>]\<rparr>,
       dat := Some [(0, 0)], datsz := 1, index_ptr := [0, 1, 0, 0, 0]\<rparr>"

text \<open>
  A cursor with a restart due, for a revolution whose slice is empty and is followed in
  the buffer by a zero sample: the restart puts the cursor on that sample, the sample is
  read, and the restart is due again.
\<close>

definition empty_stuck :: "scp_file \<Rightarrow> u32 \<Rightarrow> bool" where
  "empty_stuck sf rev_nr =
     (iter_limit sf \<le> iter_ptr sf \<and> unat rev_nr < length (index_ptr sf)
      \<and> slice_end sf rev_nr = slice_start sf rev_nr
      \<and> slice_start sf rev_nr \<le> slice_start sf rev_nr + 1
      \<and> (case dat sf of
            None \<Rightarrow> False
          | Some buf \<Rightarrow> unat (slice_start sf rev_nr) < length buf
                        \<and> be16toh (buf ! unat (slice_start sf rev_nr)) = 0))"

section \<open>Properties of the flux stream iterator\<close>

lemma unat_ucast_sample: "unat (ucast (x::u16) :: u32) = unat x"
  by transfer simp

lemma ucast_sample_eq_0: "((ucast (x::u16) :: u32) = 0) = (x = 0)"
  by (metis unat_ucast_sample unat_eq_zero)

lemma unat_ptr_succ:
  fixes p l :: u32
  assumes "unat p < unat l"
  shows "unat (p + 1) = unat p + 1"
proof -
  have "unat l < 2 ^ 32" using unsigned_less [of l, where 'a = nat] by simp
  with assms have "unat p + unat (1::u32) < 2 ^ LENGTH(32)" by simp
  then show ?thesis by (simp add: unat_add_lem [THEN iffD1])
qed

lemma flux_step_inside:
  assumes "dat sf = Some buf" and "unat (iter_ptr sf) < unat (iter_limit sf)"
    and "unat (iter_ptr sf) < length buf"
  shows "scp_flux_step sf rev_nr val =
     (if be16toh (buf ! unat (iter_ptr sf)) \<noteq> 0
      then Flux_Return (val + ucast (be16toh (buf ! unat (iter_ptr sf)))) (sf\<lparr>iter_ptr := iter_ptr sf + 1\<rparr>)
      else Flux_Again (val + 0x10000) (sf\<lparr>iter_ptr := iter_ptr sf + 1\<rparr>))"
proof -
  from assms(2) have "\<not> iter_limit sf \<le> iter_ptr sf" by (simp add: word_le_nat_alt)
  then have "scp_restart sf rev_nr val = Inr (sf, val)" by (simp add: scp_restart_def)
  then show ?thesis using assms(1,3)
    by (simp add: scp_flux_step_def Let_def ucast_sample_eq_0)
qed

lemma flux_scan:
  assumes "dat sf = Some buf"
    and "unat (iter_ptr sf) + k < unat (iter_limit sf)"
    and "unat (iter_ptr sf) + k < length buf"
    and "\<forall>i<k. be16toh (buf ! (unat (iter_ptr sf) + i)) = 0"
    and "be16toh (buf ! (unat (iter_ptr sf) + k)) \<noteq> 0"
  shows "scp_flux_loop sf rev_nr val =
           Some (Inr (val + of_nat k * 0x10000 + ucast (be16toh (buf ! (unat (iter_ptr sf) + k))),
                      sf\<lparr>iter_ptr := iter_ptr sf + of_nat k + 1\<rparr>))"
  using assms
proof (induction k arbitrary: sf val)
  case 0
  then have "scp_flux_step sf rev_nr val =
     Flux_Return (val + ucast (be16toh (buf ! unat (iter_ptr sf)))) (sf\<lparr>iter_ptr := iter_ptr sf + 1\<rparr>)"
    by (simp add: flux_step_inside)
  then show ?case
    by (subst scp_flux_loop.simps) simp
next
  case (Suc k)
  let ?sf2 = "sf\<lparr>iter_ptr := iter_ptr sf + 1\<rparr>"
  from Suc.prems have u: "unat (iter_ptr sf + 1) = unat (iter_ptr sf) + 1"
    by (intro unat_ptr_succ [of _ "iter_limit sf"]) simp
  from Suc.prems have z: "be16toh (buf ! unat (iter_ptr sf)) = 0" by (metis add.right_neutral zero_less_Suc)
  have step: "scp_flux_step sf rev_nr val = Flux_Again (val + 0x10000) ?sf2"
    using Suc.prems z by (simp add: flux_step_inside)
  have z': "\<forall>i<k. be16toh (buf ! (unat (iter_ptr ?sf2) + i)) = 0"
  proof (intro allI impI)
    fix i assume "i < k"
    then have "Suc i < Suc k" by simp
    with Suc.prems(4) have "be16toh (buf ! (unat (iter_ptr sf) + Suc i)) = 0" by blast
    then show "be16toh (buf ! (unat (iter_ptr ?sf2) + i)) = 0" using u by simp
  qed
  have ih: "scp_flux_loop ?sf2 rev_nr (val + 0x10000) =
      Some (Inr (val + 0x10000 + of_nat k * 0x10000 + ucast (be16toh (buf ! (unat (iter_ptr ?sf2) + k))),
                      ?sf2\<lparr>iter_ptr := iter_ptr ?sf2 + of_nat k + 1\<rparr>))"
    using Suc.prems u z' by (intro Suc.IH) simp_all
  show ?case
    apply (subst scp_flux_loop.simps)
    using step ih u by (simp add: algebra_simps)
qed

section \<open>The cursor and the slice\<close>

lemma restart_pending:
  assumes "iter_limit sf \<le> iter_ptr sf" and "unat rev_nr < length (index_ptr sf)"
  shows "scp_restart sf rev_nr val =
           Inr (sf\<lparr>iter_limit := slice_end sf rev_nr, iter_ptr := slice_start sf rev_nr\<rparr>, 0)"
  using assms by (simp add: scp_restart_def slice_start_def slice_end_def)

lemma restart_inside:
  assumes "\<not> iter_limit sf \<le> iter_ptr sf"
  shows "scp_restart sf rev_nr val = Inr (sf, val)"
  using assms by (simp add: scp_restart_def)

text \<open>The state in which the loop body reads its sample, for a cursor that is in order.\<close>

lemma restart_cursor:
  assumes "slice_ok sf rev_nr" and "cursor_ok sf rev_nr"
  obtains sf1 val1 where "scp_restart sf rev_nr val = Inr (sf1, val1)"
    and "iter_limit sf1 = slice_end sf rev_nr"
    and "slice_start sf rev_nr \<le> iter_ptr sf1" and "iter_ptr sf1 < slice_end sf rev_nr"
    and "dat sf1 = dat sf" and "index_ptr sf1 = index_ptr sf"
    and "iter_limit sf \<le> iter_ptr sf \<Longrightarrow> iter_ptr sf1 = slice_start sf rev_nr \<and> val1 = 0"
    and "\<not> iter_limit sf \<le> iter_ptr sf \<Longrightarrow> sf1 = sf \<and> val1 = val"
proof (cases "iter_limit sf \<le> iter_ptr sf")
  case True
  from assms(1) have r: "unat rev_nr < length (index_ptr sf)" and lt: "slice_start sf rev_nr < slice_end sf rev_nr"
    by (simp_all add: slice_ok_def)
  show ?thesis
    by (rule that [OF restart_pending [OF True r]]) (use True lt in simp_all)
next
  case False
  with assms(2) have "iter_limit sf = slice_end sf rev_nr" "slice_start sf rev_nr \<le> iter_ptr sf"
    by (simp_all add: cursor_ok_def)
  with False show ?thesis
    by (intro that [OF restart_inside [OF False]]) simp_all
qed

lemma flux_step_cursor:
  assumes "slice_ok sf rev_nr" and "cursor_ok sf rev_nr"
  obtains sf1 val1 buf where "scp_restart sf rev_nr val = Inr (sf1, val1)"
    and "dat sf = Some buf"
    and "unat (slice_start sf rev_nr) \<le> unat (iter_ptr sf1)"
    and "unat (iter_ptr sf1) < unat (slice_end sf rev_nr)"
    and "unat (iter_ptr sf1) < length buf"
    and "scp_flux_step sf rev_nr val =
          (if be16toh (buf ! unat (iter_ptr sf1)) \<noteq> 0
           then Flux_Return (val1 + ucast (be16toh (buf ! unat (iter_ptr sf1)))) (sf1\<lparr>iter_ptr := iter_ptr sf1 + 1\<rparr>)
           else Flux_Again (val1 + 0x10000) (sf1\<lparr>iter_ptr := iter_ptr sf1 + 1\<rparr>))"
    and "slice_ok (sf1\<lparr>iter_ptr := iter_ptr sf1 + 1\<rparr>) rev_nr"
    and "cursor_ok (sf1\<lparr>iter_ptr := iter_ptr sf1 + 1\<rparr>) rev_nr"
    and "slice_start (sf1\<lparr>iter_ptr := iter_ptr sf1 + 1\<rparr>) rev_nr = slice_start sf rev_nr"
    and "slice_end (sf1\<lparr>iter_ptr := iter_ptr sf1 + 1\<rparr>) rev_nr = slice_end sf rev_nr"
    and "iter_limit sf1 = slice_end sf rev_nr"
proof -
  from assms(1) obtain buf where buf: "dat sf = Some buf" and len: "unat (slice_end sf rev_nr) \<le> length buf"
    by (auto simp: slice_ok_def split: option.splits)
  from restart_cursor [OF assms, of val] obtain sf1 val1 where
    r: "scp_restart sf rev_nr val = Inr (sf1, val1)"
    and l: "iter_limit sf1 = slice_end sf rev_nr"
    and s: "slice_start sf rev_nr \<le> iter_ptr sf1" and e: "iter_ptr sf1 < slice_end sf rev_nr"
    and d: "dat sf1 = dat sf" and ix: "index_ptr sf1 = index_ptr sf"
    by blast
  from e have e': "unat (iter_ptr sf1) < unat (slice_end sf rev_nr)" by (simp add: word_less_nat_alt)
  from s have s': "unat (slice_start sf rev_nr) \<le> unat (iter_ptr sf1)" by (simp add: word_le_nat_alt)
  from e' len have b: "unat (iter_ptr sf1) < length buf" by simp
  have u: "unat (iter_ptr sf1 + 1) = unat (iter_ptr sf1) + 1"
    by (rule unat_ptr_succ [OF e'])
  have step: "scp_flux_step sf rev_nr val =
          (if be16toh (buf ! unat (iter_ptr sf1)) \<noteq> 0
           then Flux_Return (val1 + ucast (be16toh (buf ! unat (iter_ptr sf1)))) (sf1\<lparr>iter_ptr := iter_ptr sf1 + 1\<rparr>)
           else Flux_Again (val1 + 0x10000) (sf1\<lparr>iter_ptr := iter_ptr sf1 + 1\<rparr>))"
    using r d buf b by (simp add: scp_flux_step_def Let_def ucast_sample_eq_0)
  have st: "slice_start (sf1\<lparr>iter_ptr := iter_ptr sf1 + 1\<rparr>) rev_nr = slice_start sf rev_nr"
    and en: "slice_end (sf1\<lparr>iter_ptr := iter_ptr sf1 + 1\<rparr>) rev_nr = slice_end sf rev_nr"
    using ix by (simp_all add: slice_start_def slice_end_def)
  have so: "slice_ok (sf1\<lparr>iter_ptr := iter_ptr sf1 + 1\<rparr>) rev_nr"
    using assms(1) d ix buf st en by (simp add: slice_ok_def)
  have "slice_start sf rev_nr \<le> iter_ptr sf1 + 1"
    using s' u by (simp add: word_le_nat_alt)
  then have co: "cursor_ok (sf1\<lparr>iter_ptr := iter_ptr sf1 + 1\<rparr>) rev_nr"
    using l st en by (simp add: cursor_ok_def)
  from r buf s' e' b step so co st en l show ?thesis by (rule that)
qed

lemma flux_reads_in_slice:
  assumes "slice_ok sf rev_nr" and "cursor_ok sf rev_nr"
  shows "\<forall>i \<in> set (scp_flux_reads n sf rev_nr val).
           unat (slice_start sf rev_nr) \<le> i \<and> i < unat (slice_end sf rev_nr)"
  using assms
proof (induction n arbitrary: sf val)
  case 0
  then show ?case by simp
next
  case (Suc n)
  from flux_step_cursor [OF Suc.prems, of val] obtain sf1 val1 buf where
    r: "scp_restart sf rev_nr val = Inr (sf1, val1)"
    and s: "unat (slice_start sf rev_nr) \<le> unat (iter_ptr sf1)"
    and e: "unat (iter_ptr sf1) < unat (slice_end sf rev_nr)"
    and step: "scp_flux_step sf rev_nr val =
          (if be16toh (buf ! unat (iter_ptr sf1)) \<noteq> 0
           then Flux_Return (val1 + ucast (be16toh (buf ! unat (iter_ptr sf1)))) (sf1\<lparr>iter_ptr := iter_ptr sf1 + 1\<rparr>)
           else Flux_Again (val1 + 0x10000) (sf1\<lparr>iter_ptr := iter_ptr sf1 + 1\<rparr>))"
    and so: "slice_ok (sf1\<lparr>iter_ptr := iter_ptr sf1 + 1\<rparr>) rev_nr"
    and co: "cursor_ok (sf1\<lparr>iter_ptr := iter_ptr sf1 + 1\<rparr>) rev_nr"
    and st: "slice_start (sf1\<lparr>iter_ptr := iter_ptr sf1 + 1\<rparr>) rev_nr = slice_start sf rev_nr"
    and en: "slice_end (sf1\<lparr>iter_ptr := iter_ptr sf1 + 1\<rparr>) rev_nr = slice_end sf rev_nr"
    by blast
  from Suc.IH [OF so co, of "val1 + 0x10000"] st en
  have ih: "\<forall>i \<in> set (scp_flux_reads n (sf1\<lparr>iter_ptr := iter_ptr sf1 + 1\<rparr>) rev_nr (val1 + 0x10000)).
           unat (slice_start sf rev_nr) \<le> i \<and> i < unat (slice_end sf rev_nr)" by simp
  show ?case
    using r s e step ih by simp
qed

lemma first_flux:
  assumes "p \<le> j" and "be16toh (buf ! j) \<noteq> 0"
  obtains k where "p + k \<le> j" and "\<forall>i<k. be16toh (buf ! (p + i)) = 0"
    and "be16toh (buf ! (p + k)) \<noteq> 0"
proof -
  define Q where "Q m = (p \<le> m \<and> be16toh (buf ! m) \<noteq> 0)" for m
  define j0 where "j0 = (LEAST m. Q m)"
  have "Q j" using assms by (simp add: Q_def)
  then have q0: "Q j0" and le: "j0 \<le> j" unfolding j0_def by (rule LeastI, rule Least_le)
  have min: "\<not> Q m" if "m < j0" for m using that not_less_Least unfolding j0_def by blast
  show ?thesis
  proof (rule that [of "j0 - p"])
    show "p + (j0 - p) \<le> j" using q0 le by (simp add: Q_def)
    show "be16toh (buf ! (p + (j0 - p))) \<noteq> 0" using q0 by (simp add: Q_def)
    show "\<forall>i<j0 - p. be16toh (buf ! (p + i)) = 0"
    proof (intro allI impI)
      fix i assume "i < j0 - p"
      then have "p + i < j0" by simp
      from min [OF this] show "be16toh (buf ! (p + i)) = 0" by (simp add: Q_def)
    qed
  qed
qed

lemma unat_ptr_advance:
  fixes p l :: u32
  assumes "unat p + k < unat l"
  shows "unat (p + of_nat k + 1) = unat p + k + 1"
proof -
  have l: "unat l < 2 ^ 32" using unsigned_less [of l, where 'a = nat] by simp
  from assms have "k \<le> unat l" by simp
  then have uk: "unat (of_nat k :: u32) = k" by (rule le_unat_uoi)
  with assms l have "unat p + unat (of_nat k :: u32) < 2 ^ LENGTH(32)" by simp
  then have "unat (p + of_nat k) = unat p + k" using uk by (simp add: unat_add_lem [THEN iffD1])
  with assms show ?thesis using unat_ptr_succ [of "p + of_nat k" l] by simp
qed

lemma flux_exhaust:
  assumes "dat sf = Some buf"
    and "unat (iter_ptr sf) + k = unat (iter_limit sf)"
    and "unat (iter_limit sf) \<le> length buf"
    and "\<forall>i<k. be16toh (buf ! (unat (iter_ptr sf) + i)) = 0"
  shows "scp_flux_loop sf rev_nr val =
           scp_flux_loop (sf\<lparr>iter_ptr := iter_limit sf\<rparr>) rev_nr (val + of_nat k * 0x10000)"
  using assms
proof (induction k arbitrary: sf val)
  case 0
  then have "iter_ptr sf = iter_limit sf" by (simp add: word_unat_eq_iff)
  then have "sf\<lparr>iter_ptr := iter_limit sf\<rparr> = sf" by (metis scp_file.surjective scp_file.update_convs(7))
  then show ?case by simp
next
  case (Suc k)
  let ?sf2 = "sf\<lparr>iter_ptr := iter_ptr sf + 1\<rparr>"
  from Suc.prems have lt: "unat (iter_ptr sf) < unat (iter_limit sf)" by simp
  then have u: "unat (iter_ptr sf + 1) = unat (iter_ptr sf) + 1" by (rule unat_ptr_succ)
  from Suc.prems(4) have z: "be16toh (buf ! unat (iter_ptr sf)) = 0"
    by (metis add.right_neutral zero_less_Suc)
  have step: "scp_flux_step sf rev_nr val = Flux_Again (val + 0x10000) ?sf2"
    using Suc.prems lt z by (simp add: flux_step_inside)
  have z': "\<forall>i<k. be16toh (buf ! (unat (iter_ptr ?sf2) + i)) = 0"
  proof (intro allI impI)
    fix i assume "i < k"
    then have "Suc i < Suc k" by simp
    with Suc.prems(4) have "be16toh (buf ! (unat (iter_ptr sf) + Suc i)) = 0" by blast
    then show "be16toh (buf ! (unat (iter_ptr ?sf2) + i)) = 0" using u by simp
  qed
  have ih: "scp_flux_loop ?sf2 rev_nr (val + 0x10000) =
      scp_flux_loop (?sf2\<lparr>iter_ptr := iter_limit ?sf2\<rparr>) rev_nr (val + 0x10000 + of_nat k * 0x10000)"
    using Suc.prems u z' by (intro Suc.IH) simp_all
  have "scp_flux_loop sf rev_nr val = scp_flux_loop ?sf2 rev_nr (val + 0x10000)"
    by (subst scp_flux_loop.simps) (simp add: step)
  with ih show ?case by (simp add: algebra_simps)
qed

lemma flux_loop_restart_at:
  assumes "iter_limit sf \<le> iter_ptr sf" and r: "unat rev_nr < length (index_ptr sf)"
    and lt: "slice_start sf rev_nr < slice_end sf rev_nr"
  shows "scp_flux_loop sf rev_nr val =
           scp_flux_loop (sf\<lparr>iter_limit := slice_end sf rev_nr, iter_ptr := slice_start sf rev_nr\<rparr>)
             rev_nr 0"
proof -
  let ?sfr = "sf\<lparr>iter_limit := slice_end sf rev_nr, iter_ptr := slice_start sf rev_nr\<rparr>"
  have a: "scp_restart sf rev_nr val = Inr (?sfr, 0)" by (rule restart_pending [OF assms(1) r])
  from lt have "\<not> iter_limit ?sfr \<le> iter_ptr ?sfr" by simp
  then have b: "scp_restart ?sfr rev_nr 0 = Inr (?sfr, 0)" by (rule restart_inside)
  have step: "scp_flux_step sf rev_nr val = scp_flux_step ?sfr rev_nr 0"
    by (simp add: scp_flux_step_def a b)
  have "scp_flux_loop sf rev_nr val =
      (case scp_flux_step sf rev_nr val of
        Flux_Fault e \<Rightarrow> Some (Inl e)
      | Flux_Return v sf' \<Rightarrow> Some (Inr (v, sf'))
      | Flux_Again v sf' \<Rightarrow> scp_flux_loop sf' rev_nr v)"
    by (rule scp_flux_loop.simps)
  also have "\<dots> = (case scp_flux_step ?sfr rev_nr 0 of
        Flux_Fault e \<Rightarrow> Some (Inl e)
      | Flux_Return v sf' \<Rightarrow> Some (Inr (v, sf'))
      | Flux_Again v sf' \<Rightarrow> scp_flux_loop sf' rev_nr v)"
    by (simp only: step)
  also have "\<dots> = scp_flux_loop ?sfr rev_nr 0"
    by (rule scp_flux_loop.simps [symmetric])
  finally show ?thesis .
qed

lemma flux_loop_restart:
  assumes "iter_limit sf \<le> iter_ptr sf" and "slice_ok sf rev_nr"
  shows "scp_flux_loop sf rev_nr val =
           scp_flux_loop (sf\<lparr>iter_limit := slice_end sf rev_nr, iter_ptr := slice_start sf rev_nr\<rparr>)
             rev_nr 0"
  using assms by (intro flux_loop_restart_at) (simp_all add: slice_ok_def)

lemma flux_value_nonzero:
  fixes t :: u16
  assumes "t \<noteq> 0"
  shows "(of_nat k * 0x10000 + ucast t :: u32) \<noteq> 0"
proof
  assume z: "(of_nat k * 0x10000 + ucast t :: u32) = 0"
  have "unat (of_nat k * 0x10000 + ucast t :: u32) = (k * 65536 mod 2 ^ 32 + unat t) mod 2 ^ 32"
    by (simp add: unat_word_ariths unat_ucast_sample unat_of_nat mod_simps)
  with z have "(k * 65536 + unat t) mod 4294967296 = 0" by (simp add: mod_simps)
  then have "(k * 65536 + unat t) mod 4294967296 mod 65536 = 0" by simp
  then have "(k * 65536 + unat t) mod 65536 = 0" by (simp add: mod_mod_cancel)
  then have "unat t mod 65536 = 0" by simp
  moreover have "unat t < 65536" using unsigned_less [of t, where 'a = nat] by simp
  ultimately have "unat t = 0" by simp
  with assms show False by (simp add: unat_eq_zero)
qed

lemma slice_cursor_update [simp]:
  "slice_start (sf\<lparr>iter_ptr := a\<rparr>) r = slice_start sf r"
  "slice_start (sf\<lparr>iter_limit := b\<rparr>) r = slice_start sf r"
  "slice_end (sf\<lparr>iter_ptr := a\<rparr>) r = slice_end sf r"
  "slice_end (sf\<lparr>iter_limit := b\<rparr>) r = slice_end sf r"
  "slice (sf\<lparr>iter_ptr := a\<rparr>) r = slice sf r"
  "slice (sf\<lparr>iter_limit := b\<rparr>) r = slice sf r"
  "slice_ok (sf\<lparr>iter_ptr := a\<rparr>) r = slice_ok sf r"
  "slice_ok (sf\<lparr>iter_limit := b\<rparr>) r = slice_ok sf r"
  by (simp_all add: slice_start_def slice_end_def slice_def slice_ok_def split: option.splits)

lemma intervals_prefix:
  assumes "j < length xs" and "\<forall>i<j. be16toh (xs ! i) = 0" and "be16toh (xs ! j) \<noteq> 0"
  shows "(a + j) * 0x10000 + unat (be16toh (xs ! j)) \<in> set (flux_intervals a xs)"
  using assms
proof (induction xs arbitrary: a j)
  case Nil
  then show ?case by simp
next
  case (Cons s ss)
  show ?case
  proof (cases j)
    case 0
    with Cons.prems show ?thesis by simp
  next
    case (Suc j')
    with Cons.prems(2) have z: "be16toh s = 0" by auto
    from Suc Cons.prems have a: "j' < length ss" and c: "be16toh (ss ! j') \<noteq> 0" by simp_all
    have b: "\<forall>i<j'. be16toh (ss ! i) = 0"
    proof (intro allI impI)
      fix i assume "i < j'"
      with Suc have "Suc i < j" by simp
      with Cons.prems(2) have "be16toh ((s # ss) ! Suc i) = 0" by blast
      then show "be16toh (ss ! i) = 0" by simp
    qed
    from Cons.IH [OF a b c, of "Suc a"] z Suc show ?thesis by simp
  qed
qed

text \<open>
  A run of \<open>k\<close> zero samples before a non-zero sample, anywhere in a list, is the end of
  one of the list's intervals.
\<close>

lemma intervals_run:
  assumes "p + k < length xs" and "\<forall>i<k. be16toh (xs ! (p + i)) = 0"
    and "be16toh (xs ! (p + k)) \<noteq> 0"
  shows "\<exists>x \<in> set (flux_intervals a xs). k * 0x10000 + unat (be16toh (xs ! (p + k))) \<le> x"
  using assms
proof (induction xs arbitrary: a p)
  case Nil
  then show ?case by simp
next
  case (Cons s ss)
  show ?case
  proof (cases p)
    case 0
    with Cons.prems have a: "k < length (s # ss)" and b: "\<forall>i<k. be16toh ((s # ss) ! i) = 0"
      and c: "be16toh ((s # ss) ! k) \<noteq> 0" by simp_all
    from intervals_prefix [OF a b c, of a] 0 show ?thesis
      by (intro bexI [of _ "(a + k) * 0x10000 + unat (be16toh ((s # ss) ! k))"]) simp_all
  next
    case (Suc p')
    with Cons.prems have a: "p' + k < length ss" and b: "\<forall>i<k. be16toh (ss ! (p' + i)) = 0"
      and c: "be16toh (ss ! (p' + k)) \<noteq> 0" by simp_all
    note ih = Cons.IH [OF a b c]
    show ?thesis
    proof (cases "be16toh s = 0")
      case True
      from ih [of "Suc a"] True Suc show ?thesis by simp
    next
      case False
      from ih [of 0] False Suc show ?thesis by auto
    qed
  qed
qed

lemma slice_nth:
  assumes "slice_ok sf rev_nr" and "dat sf = Some buf"
  shows "length (slice sf rev_nr) = unat (slice_end sf rev_nr) - unat (slice_start sf rev_nr)"
    and "i < unat (slice_end sf rev_nr) - unat (slice_start sf rev_nr)
           \<Longrightarrow> slice sf rev_nr ! i = buf ! (unat (slice_start sf rev_nr) + i)"
proof -
  from assms have "unat (slice_end sf rev_nr) \<le> length buf" by (simp add: slice_ok_def)
  then show "length (slice sf rev_nr) = unat (slice_end sf rev_nr) - unat (slice_start sf rev_nr)"
    using assms(2) by (simp add: slice_def)
  show "i < unat (slice_end sf rev_nr) - unat (slice_start sf rev_nr)
           \<Longrightarrow> slice sf rev_nr ! i = buf ! (unat (slice_start sf rev_nr) + i)"
    using assms(2) \<open>unat (slice_end sf rev_nr) \<le> length buf\<close> by (simp add: slice_def)
qed

text \<open>
  A call from a cursor inside the slice, with a non-zero sample at or after the cursor.
\<close>

lemma flux_from_inside:
  assumes ok: "slice_ok sf rev_nr" and lim: "iter_limit sf = slice_end sf rev_nr"
    and st: "slice_start sf rev_nr \<le> iter_ptr sf"
    and j: "unat (iter_ptr sf) \<le> j" "j < unat (slice_end sf rev_nr)"
    and nz: "\<exists>buf. dat sf = Some buf \<and> be16toh (buf ! j) \<noteq> 0"
  obtains k and t :: u16 and sf' where
    "scp_flux_loop sf rev_nr val = Some (Inr (val + of_nat k * 0x10000 + ucast t, sf'))"
    and "t \<noteq> 0" and "\<exists>x \<in> set (slice_intervals sf rev_nr). k * 0x10000 + unat t \<le> x"
    and "slice_ok sf' rev_nr" and "cursor_ok sf' rev_nr" and "slice sf' rev_nr = slice sf rev_nr"
proof -
  from nz obtain buf where buf: "dat sf = Some buf" and nzj: "be16toh (buf ! j) \<noteq> 0" by blast
  from ok buf have len: "unat (slice_end sf rev_nr) \<le> length buf" by (simp add: slice_ok_def)
  let ?p = "unat (iter_ptr sf)"
  from first_flux [OF j(1) nzj] obtain k where
    k: "?p + k \<le> j" and z: "\<forall>i<k. be16toh (buf ! (?p + i)) = 0"
    and t: "be16toh (buf ! (?p + k)) \<noteq> 0" by blast
  let ?t = "be16toh (buf ! (?p + k))"
  let ?sf' = "sf\<lparr>iter_ptr := iter_ptr sf + of_nat k + 1\<rparr>"
  from k j(2) lim have lt: "?p + k < unat (iter_limit sf)" by simp
  with len lim have lb: "?p + k < length buf" by simp
  have res: "scp_flux_loop sf rev_nr val = Some (Inr (val + of_nat k * 0x10000 + ucast ?t, ?sf'))"
    by (rule flux_scan [OF buf lt lb z t])
  have u: "unat (iter_ptr sf + of_nat k + 1) = ?p + k + 1" by (rule unat_ptr_advance [OF lt])
  have se: "slice_start ?sf' rev_nr = slice_start sf rev_nr" "slice_end ?sf' rev_nr = slice_end sf rev_nr"
    by simp_all
  have sl: "slice ?sf' rev_nr = slice sf rev_nr" by simp
  have so: "slice_ok ?sf' rev_nr" using ok by simp
  from st have "unat (slice_start sf rev_nr) \<le> ?p" by (simp add: word_le_nat_alt)
  with u have "slice_start sf rev_nr \<le> iter_ptr sf + of_nat k + 1" by (simp add: word_le_nat_alt)
  with lim se have co: "cursor_ok ?sf' rev_nr" by (simp add: cursor_ok_def)
  have kz: "\<exists>x \<in> set (slice_intervals sf rev_nr). k * 0x10000 + unat ?t \<le> x"
  proof -
    let ?q = "?p - unat (slice_start sf rev_nr)"
    note sp = \<open>unat (slice_start sf rev_nr) \<le> ?p\<close>
    from sp lt lim have a: "?q + k < length (slice sf rev_nr)"
      by (simp add: slice_nth(1) [OF ok buf])
    have nth: "slice sf rev_nr ! (?q + i) = buf ! (?p + i)" if "i \<le> k" for i
    proof -
      from that sp lt lim
      have "?q + i < unat (slice_end sf rev_nr) - unat (slice_start sf rev_nr)" by simp
      from slice_nth(2) [OF ok buf this] sp show ?thesis by simp
    qed
    have b: "\<forall>i<k. be16toh (slice sf rev_nr ! (?q + i)) = 0" using z nth by simp
    have c: "be16toh (slice sf rev_nr ! (?q + k)) \<noteq> 0" using t nth [of k] by simp
    from intervals_run [OF a b c, of 0] nth [of k] show ?thesis
      by (simp add: slice_intervals_def)
  qed
  from res t kz so co sl show ?thesis by (rule that)
qed

text \<open>A call that starts at the beginning of the slice.\<close>

lemma flux_from_start:
  assumes ok: "slice_ok sf rev_nr" and hf: "slice_has_flux sf rev_nr"
  obtains k and t :: u16 and sf' where
    "scp_flux_loop (sf\<lparr>iter_limit := slice_end sf rev_nr, iter_ptr := slice_start sf rev_nr\<rparr>)
       rev_nr 0 = Some (Inr (of_nat k * 0x10000 + ucast t, sf'))"
    and "t \<noteq> 0" and "\<exists>x \<in> set (slice_intervals sf rev_nr). k * 0x10000 + unat t \<le> x"
    and "slice_ok sf' rev_nr" and "cursor_ok sf' rev_nr" and "slice sf' rev_nr = slice sf rev_nr"
proof -
  let ?sfr = "sf\<lparr>iter_limit := slice_end sf rev_nr, iter_ptr := slice_start sf rev_nr\<rparr>"
  from ok obtain buf where buf: "dat sf = Some buf" by (auto simp: slice_ok_def split: option.splits)
  from hf obtain i where i: "i < length (slice sf rev_nr)" and nz: "be16toh (slice sf rev_nr ! i) \<noteq> 0"
    by (auto simp: slice_has_flux_def in_set_conv_nth)
  from i have i': "i < unat (slice_end sf rev_nr) - unat (slice_start sf rev_nr)"
    by (simp add: slice_nth(1) [OF ok buf])
  from nz slice_nth(2) [OF ok buf i']
  have nzb: "be16toh (buf ! (unat (slice_start sf rev_nr) + i)) \<noteq> 0" by simp
  have se: "slice_start ?sfr rev_nr = slice_start sf rev_nr" "slice_end ?sfr rev_nr = slice_end sf rev_nr"
    by simp_all
  have sl: "slice ?sfr rev_nr = slice sf rev_nr" by simp
  have zs: "slice_intervals ?sfr rev_nr = slice_intervals sf rev_nr"
    using sl by (simp add: slice_intervals_def)
  have so: "slice_ok ?sfr rev_nr" using ok by simp
  have a: "iter_limit ?sfr = slice_end ?sfr rev_nr" using se by simp
  have b: "slice_start ?sfr rev_nr \<le> iter_ptr ?sfr" using se by simp
  have c: "unat (iter_ptr ?sfr) \<le> unat (slice_start sf rev_nr) + i" by simp
  have d: "unat (slice_start sf rev_nr) + i < unat (slice_end ?sfr rev_nr)" using i' se by simp
  have e: "\<exists>b. dat ?sfr = Some b \<and> be16toh (b ! (unat (slice_start sf rev_nr) + i)) \<noteq> 0"
    using buf nzb by simp
  from flux_from_inside [OF so a b c d e, of 0] obtain k and t :: u16 and sf' where
    "scp_flux_loop ?sfr rev_nr 0 = Some (Inr (0 + of_nat k * 0x10000 + ucast t, sf'))"
    and "t \<noteq> 0" and "\<exists>x \<in> set (slice_intervals ?sfr rev_nr). k * 0x10000 + unat t \<le> x"
    and "slice_ok sf' rev_nr" and "cursor_ok sf' rev_nr" and "slice sf' rev_nr = slice ?sfr rev_nr"
    by blast
  then show ?thesis using sl zs by (intro that [of k t sf']) simp_all
qed

lemma next_flux_returns:
  assumes ok: "slice_ok sf rev_nr" and co: "cursor_ok sf rev_nr" and hf: "slice_has_flux sf rev_nr"
  obtains k and t :: u16 and sf' where
    "scp_next_flux sf rev_nr = Some (Inr (of_nat k * 0x10000 + ucast t, sf'))"
    and "t \<noteq> 0" and "\<exists>x \<in> set (slice_intervals sf rev_nr). k * 0x10000 + unat t \<le> x"
    and "slice_ok sf' rev_nr" and "cursor_ok sf' rev_nr" and "slice sf' rev_nr = slice sf rev_nr"
proof -
  let ?sfr = "sf\<lparr>iter_limit := slice_end sf rev_nr, iter_ptr := slice_start sf rev_nr\<rparr>"
  from ok obtain buf where buf: "dat sf = Some buf" and len: "unat (slice_end sf rev_nr) \<le> length buf"
    by (auto simp: slice_ok_def split: option.splits)
  from flux_from_start [OF ok hf] obtain k0 and t0 :: u16 and sf0 where
    fs: "scp_flux_loop ?sfr rev_nr 0 = Some (Inr (of_nat k0 * 0x10000 + ucast t0, sf0))"
    and fs': "t0 \<noteq> 0" "\<exists>x \<in> set (slice_intervals sf rev_nr). k0 * 0x10000 + unat t0 \<le> x" "slice_ok sf0 rev_nr" "cursor_ok sf0 rev_nr"
      "slice sf0 rev_nr = slice sf rev_nr"
    by blast
  show ?thesis
  proof (cases "iter_limit sf \<le> iter_ptr sf")
    case True
    from flux_loop_restart [OF True ok, of 0] fs
    have "scp_next_flux sf rev_nr = Some (Inr (of_nat k0 * 0x10000 + ucast t0, sf0))"
      by (simp add: scp_next_flux_def)
    with fs' show ?thesis by (intro that [of k0 t0 sf0])
  next
    case False
    with co have lim: "iter_limit sf = slice_end sf rev_nr" and st: "slice_start sf rev_nr \<le> iter_ptr sf"
      by (simp_all add: cursor_ok_def)
    from False lim have plt: "unat (iter_ptr sf) < unat (slice_end sf rev_nr)"
      by (simp add: word_le_nat_alt)
    show ?thesis
    proof (cases "\<exists>j. unat (iter_ptr sf) \<le> j \<and> j < unat (slice_end sf rev_nr) \<and> be16toh (buf ! j) \<noteq> 0")
      case True
      then obtain j where j: "unat (iter_ptr sf) \<le> j" "j < unat (slice_end sf rev_nr)"
        and nz: "be16toh (buf ! j) \<noteq> 0" by blast
      from buf nz have e: "\<exists>b. dat sf = Some b \<and> be16toh (b ! j) \<noteq> 0" by simp
      from flux_from_inside [OF ok lim st j e, of 0] obtain k and t :: u16 and sf' where
        "scp_flux_loop sf rev_nr 0 = Some (Inr (0 + of_nat k * 0x10000 + ucast t, sf'))"
        and r: "t \<noteq> 0" "\<exists>x \<in> set (slice_intervals sf rev_nr). k * 0x10000 + unat t \<le> x"
         "slice_ok sf' rev_nr" "cursor_ok sf' rev_nr" "slice sf' rev_nr = slice sf rev_nr"
        by blast
      then have "scp_next_flux sf rev_nr = Some (Inr (of_nat k * 0x10000 + ucast t, sf'))"
        by (simp add: scp_next_flux_def)
      with r show ?thesis by (intro that [of k t sf'])
    next
      case False
      define k where "k = unat (slice_end sf rev_nr) - unat (iter_ptr sf)"
      have a: "unat (iter_ptr sf) + k = unat (iter_limit sf)" using plt lim by (simp add: k_def)
      have b: "unat (iter_limit sf) \<le> length buf" using len lim by simp
      have c: "\<forall>i<k. be16toh (buf ! (unat (iter_ptr sf) + i)) = 0"
      proof (intro allI impI)
        fix i assume "i < k"
        then have "unat (iter_ptr sf) + i < unat (slice_end sf rev_nr)" by (simp add: k_def)
        with False show "be16toh (buf ! (unat (iter_ptr sf) + i)) = 0" by auto
      qed
      let ?sfe = "sf\<lparr>iter_ptr := iter_limit sf\<rparr>"
      have se: "slice_start ?sfe rev_nr = slice_start sf rev_nr" "slice_end ?sfe rev_nr = slice_end sf rev_nr"
        by simp_all
      have oke: "slice_ok ?sfe rev_nr" using ok by simp
      have pend: "iter_limit ?sfe \<le> iter_ptr ?sfe" by simp
      have "scp_flux_loop sf rev_nr 0 = scp_flux_loop ?sfe rev_nr (0 + of_nat k * 0x10000)"
        by (rule flux_exhaust [OF buf a b c])
      also have "\<dots> = scp_flux_loop
          (?sfe\<lparr>iter_limit := slice_end ?sfe rev_nr, iter_ptr := slice_start ?sfe rev_nr\<rparr>) rev_nr 0"
        by (rule flux_loop_restart [OF pend oke])
      also have "?sfe\<lparr>iter_limit := slice_end ?sfe rev_nr, iter_ptr := slice_start ?sfe rev_nr\<rparr> = ?sfr"
        using se by simp
      finally have "scp_next_flux sf rev_nr = Some (Inr (of_nat k0 * 0x10000 + ucast t0, sf0))"
        using fs by (simp add: scp_next_flux_def)
      with fs' show ?thesis by (intro that [of k0 t0 sf0])
    qed
  qed
qed

section \<open>An interval with overflow samples\<close>

text \<open>
  A call of \<^verbatim>\<open>scp_next_flux\<close> before a run of \<open>k\<close> zero samples and a non-zero
  sample, whether it begins with a restart or inside the slice.
\<close>

lemma next_flux_run:
  assumes "dat sf = Some buf"
    and "iter_limit sf \<le> iter_ptr sf \<longrightarrow> unat rev_nr < length (index_ptr sf)"
    and "unat (next_ptr sf rev_nr) + k < unat (next_limit sf rev_nr)"
    and "unat (next_ptr sf rev_nr) + k < length buf"
    and "\<forall>i<k. be16toh (buf ! (unat (next_ptr sf rev_nr) + i)) = 0"
    and "be16toh (buf ! (unat (next_ptr sf rev_nr) + k)) = v" and "v \<noteq> 0"
  shows "scp_next_flux sf rev_nr =
           Some (Inr (of_nat k * 0x10000 + ucast v,
                      sf\<lparr>iter_limit := next_limit sf rev_nr,
                         iter_ptr := next_ptr sf rev_nr + of_nat k + 1\<rparr>))"
proof -
  let ?a = "next_ptr sf rev_nr" and ?l = "next_limit sf rev_nr"
  let ?sf0 = "sf\<lparr>iter_limit := ?l, iter_ptr := ?a\<rparr>"
  have d0: "dat ?sf0 = Some buf" using assms(1) by simp
  have loop: "scp_flux_loop sf rev_nr 0 = scp_flux_loop ?sf0 rev_nr 0"
  proof (cases "iter_limit sf \<le> iter_ptr sf")
    case True
    with assms(2) have r: "unat rev_nr < length (index_ptr sf)" by simp
    from True assms(3) have "unat (slice_start sf rev_nr) < unat (slice_end sf rev_nr)"
      by (simp add: next_ptr_def next_limit_def)
    then have lt: "slice_start sf rev_nr < slice_end sf rev_nr" by (simp add: word_less_nat_alt)
    from flux_loop_restart_at [OF True r lt, of 0] True show ?thesis
      by (simp add: next_ptr_def next_limit_def)
  next
    case False
    then have "?sf0 = sf" by (simp add: next_ptr_def next_limit_def)
    then show ?thesis by simp
  qed
  have "scp_flux_loop ?sf0 rev_nr 0 =
      Some (Inr (0 + of_nat k * 0x10000 + ucast (be16toh (buf ! (unat (iter_ptr ?sf0) + k))),
                 ?sf0\<lparr>iter_ptr := iter_ptr ?sf0 + of_nat k + 1\<rparr>))"
    by (rule flux_scan [OF d0]) (use assms in simp_all)
  with loop assms(6) show ?thesis by (simp add: scp_next_flux_def)
qed

text \<open>
  Claim C1, as the code has it. Let the next sample to be read (at the cursor, or at the
  start of the slice when the call begins with a restart, as the first call after
  \<^verbatim>\<open>scp_reset\<close> and the first call of every pass do) open a run of \<open>k\<close> zero samples
  followed by a non-zero sample \<open>v\<close>, all before the limit. Then \<^verbatim>\<open>scp_next_flux\<close>
  returns \<open>k * 0x10000 + v\<close> raw ticks (modulo \<open>2 ^ 32\<close>) and leaves the cursor behind
  \<open>v\<close>, and the PLL, when it asks for flux, adds 25 times that number: the interval
  delivered is \<open>25 * (k * 0x10000 + v)\<close>, every zero sample counting for
  \<open>25 * 0x10000\<close>.
\<close>

theorem next_flux_overflow_run:
  assumes "dat sf = Some buf"
    and "iter_limit sf \<le> iter_ptr sf \<longrightarrow> unat (pll_rev p) < length (index_ptr sf)"
    and "unat (next_ptr sf (pll_rev p)) + k < unat (next_limit sf (pll_rev p))"
    and "unat (next_ptr sf (pll_rev p)) + k < length buf"
    and "\<forall>i<k. be16toh (buf ! (unat (next_ptr sf (pll_rev p)) + i)) = 0"
    and "be16toh (buf ! (unat (next_ptr sf (pll_rev p)) + k)) = v" and "v \<noteq> 0"
    and "flux p <s c_div (clock p) 2"
  shows "scp_next_flux sf (pll_rev p) =
           Some (Inr (of_nat k * 0x10000 + ucast v,
                      sf\<lparr>iter_limit := next_limit sf (pll_rev p),
                         iter_ptr := next_ptr sf (pll_rev p) + of_nat k + 1\<rparr>))
         \<and> pll_accumulate p sf =
             pll_accumulate (p\<lparr>flux := flux p + 25 * (of_nat k * 0x10000 + ucast v)\<rparr>)
               (sf\<lparr>iter_limit := next_limit sf (pll_rev p),
                   iter_ptr := next_ptr sf (pll_rev p) + of_nat k + 1\<rparr>)"
proof -
  note nf = next_flux_run [OF assms(1-7)]
  have "pll_accumulate p sf =
             pll_accumulate (p\<lparr>flux := flux p + 25 * (of_nat k * 0x10000 + ucast v)\<rparr>)
               (sf\<lparr>iter_limit := next_limit sf (pll_rev p),
                   iter_ptr := next_ptr sf (pll_rev p) + of_nat k + 1\<rparr>)"
    by (subst pll_accumulate.simps) (simp add: nf assms(8))
  with nf show ?thesis by simp
qed

lemma overflow_session_fields:
  "dat (scp_reset overflow_session) = Some [(0, 0), (0, 1), (0, 0), (0, 0), (0, 3)]"
  "index_ptr (scp_reset overflow_session) = [5, 0, 0, 0, 0]"
  "iter_ptr (scp_reset overflow_session) = 0" "iter_limit (scp_reset overflow_session) = 0"
  "next_ptr (scp_reset overflow_session) 0 = 0" "next_limit (scp_reset overflow_session) 0 = 5"
  by (simp_all add: overflow_session_def zero_session_def scp_reset_def next_ptr_def
      next_limit_def slice_start_def slice_end_def)

lemma fresh_pll: "flux (pll_init r) <s c_div (clock (pll_init r)) 2" "pll_rev (pll_init r) = r"
  by (simp_all add: pll_init_def c_div_def CLOCK_CENTRE_def word_sless_alt)

text \<open>
  The example: the first call after \<^verbatim>\<open>scp_reset\<close>, which begins with a restart, on a
  revolution that starts with one zero sample and the sample 1, and a fresh PLL; then the
  call that follows, from inside the slice, before two zero samples and the sample 3.
\<close>

theorem next_flux_overflow_run_witness:
  "scp_next_flux (scp_reset overflow_session) 0 =
     Some (Inr (0x10001, overflow_session\<lparr>iter_limit := 5, iter_ptr := 2\<rparr>))
   \<and> pll_accumulate (pll_init 0) (scp_reset overflow_session) =
       pll_accumulate ((pll_init 0)\<lparr>flux := 25 * 0x10001\<rparr>)
         (overflow_session\<lparr>iter_limit := 5, iter_ptr := 2\<rparr>)
   \<and> scp_next_flux (overflow_session\<lparr>iter_limit := 5, iter_ptr := 2\<rparr>) 0 =
       Some (Inr (0x20003, overflow_session\<lparr>iter_limit := 5, iter_ptr := 5\<rparr>))"
proof -
  let ?buf = "[(0, 0), (0, 1), (0, 0), (0, 0), (0, 3)] :: sample list"
  let ?s2 = "overflow_session\<lparr>iter_limit := 5, iter_ptr := 2\<rparr>"
  have z: "\<forall>i<1. be16toh (?buf
                ! (unat (next_ptr (scp_reset overflow_session) (pll_rev (pll_init 0))) + i)) = 0"
    by (simp add: fresh_pll overflow_session_fields be16toh_def)
  have v: "be16toh (?buf
                ! (unat (next_ptr (scp_reset overflow_session) (pll_rev (pll_init 0))) + 1)) = 1"
    by (simp add: fresh_pll overflow_session_fields be16toh_def)
  from next_flux_overflow_run [of "scp_reset overflow_session" ?buf "pll_init 0" 1 1,
      OF _ _ _ _ z v]
  have a: "scp_next_flux (scp_reset overflow_session) 0 =
     Some (Inr (0x10001, ?s2))
   \<and> pll_accumulate (pll_init 0) (scp_reset overflow_session) =
       pll_accumulate ((pll_init 0)\<lparr>flux := 25 * 0x10001\<rparr>) ?s2"
    by (simp add: fresh_pll overflow_session_fields)
       (simp add: scp_reset_def pll_init_def)
  have n2: "next_ptr ?s2 0 = 2" "next_limit ?s2 0 = 5" "dat ?s2 = Some ?buf"
    by (simp_all add: next_ptr_def next_limit_def overflow_session_def zero_session_def)
  have z2: "\<forall>i<2. be16toh (?buf ! (unat (next_ptr ?s2 (pll_rev (pll_init 0))) + i)) = 0"
  proof (intro allI impI)
    fix i :: nat assume "i < 2"
    then have "i = 0 \<or> i = 1" by arith
    then show "be16toh (?buf ! (unat (next_ptr ?s2 (pll_rev (pll_init 0))) + i)) = 0"
      by (auto simp: fresh_pll n2 be16toh_def)
  qed
  have v2: "be16toh (?buf ! (unat (next_ptr ?s2 (pll_rev (pll_init 0))) + 2)) = 3"
    by (simp add: fresh_pll n2 be16toh_def)
  from next_flux_overflow_run [of ?s2 ?buf "pll_init 0" 2 3, OF _ _ _ _ z2 v2]
  have b: "scp_next_flux ?s2 0 = Some (Inr (0x20003, overflow_session\<lparr>iter_limit := 5, iter_ptr := 5\<rparr>))"
    by (simp add: fresh_pll n2)
  from a b show ?thesis by simp
qed

text \<open>
  The claim as stated gives \<open>1 * 0x10000 + 25 * 1\<close> for this run. The PLL receives
  \<open>25 * (1 * 0x10000 + 1)\<close>.
\<close>

theorem next_flux_overflow_run_counterexample:
  "pll_accumulate (pll_init 0) (scp_reset overflow_session) =
     Some (Inr ((pll_init 0)\<lparr>flux := 25 * (1 * 0x10000 + 1)\<rparr>,
                overflow_session\<lparr>iter_limit := 5, iter_ptr := 2\<rparr>))
   \<and> (25 * (1 * 0x10000 + 1) :: s32) \<noteq> 1 * 0x10000 + 25 * 1"
proof -
  have "scp_next_flux (scp_reset overflow_session) 0 =
      Some (Inr (of_nat 1 * 0x10000 + ucast (1 :: u16),
                 (scp_reset overflow_session)\<lparr>iter_limit := next_limit (scp_reset overflow_session) 0,
                    iter_ptr := next_ptr (scp_reset overflow_session) 0 + of_nat 1 + 1\<rparr>))"
    by (rule next_flux_run [where buf = "[(0, 0), (0, 1), (0, 0), (0, 0), (0, 3)]"])
       (simp_all add: overflow_session_fields be16toh_def)
  then have nf: "scp_next_flux (scp_reset overflow_session) 0 =
      Some (Inr (0x10001, overflow_session\<lparr>iter_limit := 5, iter_ptr := 2\<rparr>))"
    by (simp add: overflow_session_fields) (simp add: scp_reset_def)
  have "pll_accumulate (pll_init 0) (scp_reset overflow_session) =
             pll_accumulate ((pll_init 0)\<lparr>flux := 25 * 0x10001\<rparr>)
               (overflow_session\<lparr>iter_limit := 5, iter_ptr := 2\<rparr>)"
    by (subst pll_accumulate.simps)
       (simp add: nf pll_init_def c_div_def CLOCK_CENTRE_def word_sless_alt)
  also have "\<dots> = Some (Inr ((pll_init 0)\<lparr>flux := 25 * 0x10001\<rparr>,
                overflow_session\<lparr>iter_limit := 5, iter_ptr := 2\<rparr>))"
    by (subst pll_accumulate.simps) (simp add: pll_init_def c_div_def CLOCK_CENTRE_def word_sless_alt)
  finally show ?thesis by simp
qed

section \<open>Properties of the PLL\<close>

lemma clock_limits: "CLOCK_MIN 2000 = 1800" "CLOCK_MAX 2000 = 2200"
  by (simp_all add: CLOCK_MIN_def CLOCK_MAX_def CLOCK_MAX_ADJ_def c_div_def)

text \<open>
  The divisions of the PLL, by 2 and by 100, round toward zero: the quotient of the
  magnitude, with the sign of the dividend.
\<close>

lemma c_div_truncates:
  "c_div a 2 = word_of_int (sgn (sint a) * (\<bar>sint a\<bar> div 2))"
  "c_div a 100 = word_of_int (sgn (sint a) * (\<bar>sint a\<bar> div 100))"
  by (simp_all add: c_div_def signed_divide_int_def)

lemma pll_clock_bit_eq: "pll_clock_bit p = spec_classify p"
  by (simp add: pll_clock_bit_def spec_classify_def spec_clamp_def Let_def clock_limits
      PERIOD_ADJ_PCT_def PHASE_ADJ_PCT_def CLOCK_CENTRE_def word_sless_alt word_sle_eq)

text \<open>
  The accumulation loop of the code against the accumulation of the specification: when
  one of them returns, so does the other, with the same fault, or with the same flux and
  session and no other field of the state changed.
\<close>

lemma pll_accumulate_spec:
  assumes "pll_accumulate p sf = Some r"
  shows "case r of
           Inl e \<Rightarrow> spec_accumulate (flux p) (clock p) (pll_rev p) sf = Some (Inl e)
         | Inr (p', sf') \<Rightarrow>
             spec_accumulate (flux p) (clock p) (pll_rev p) sf = Some (Inr (flux p', sf'))
             \<and> p' = p\<lparr>flux := flux p'\<rparr>"
  using assms
proof (induct rule: pll_accumulate.raw_induct [rotated, consumes 1, case_names step])
  case (step g p sf r)
  show ?case
  proof (cases "flux p <s c_div (clock p) 2")
    case False
    with step(2) have "r = Inr (p, sf)" by simp
    moreover from False have "spec_accumulate (flux p) (clock p) (pll_rev p) sf = Some (Inr (flux p, sf))"
      by (subst spec_accumulate.simps) simp
    ultimately show ?thesis by simp
  next
    case True
    show ?thesis
    proof (cases "scp_next_flux sf (pll_rev p)")
      case None
      with True step(2) show ?thesis by simp
    next
      case (Some a)
      show ?thesis
      proof (cases a)
        case (Inl e)
        with Some True step(2) have "r = Inl e" by simp
        moreover from Inl Some True
        have "spec_accumulate (flux p) (clock p) (pll_rev p) sf = Some (Inl e)"
          by (subst spec_accumulate.simps) simp
        ultimately show ?thesis by simp
      next
        case (Inr b)
        obtain v sf1 where b: "b = (v, sf1)" by (cases b)
        let ?p1 = "p\<lparr>flux := flux p + 25 * v\<rparr>"
        from Inr b Some True step(2) have "g ?p1 sf1 = Some r" by simp
        note ih = step(1) [OF this]
        from Inr b Some True
        have un: "spec_accumulate (flux p) (clock p) (pll_rev p) sf =
                  spec_accumulate (flux p + 25 * v) (clock p) (pll_rev p) sf1"
          by (subst spec_accumulate.simps) simp
        show ?thesis
        proof (cases r)
          case (Inl e)
          with ih un show ?thesis by simp
        next
          case (Inr c)
          obtain p' sf' where c: "c = (p', sf')" by (cases c)
          from ih Inr c have s: "spec_accumulate (flux ?p1) (clock ?p1) (pll_rev ?p1) sf1
                                  = Some (Inr (flux p', sf'))"
            and e: "p' = ?p1\<lparr>flux := flux p'\<rparr>" by simp_all
          from e have "p' = p\<lparr>flux := flux p'\<rparr>" by simp
          with s un Inr c show ?thesis by simp
        qed
      qed
    qed
  qed
qed

lemma spec_accumulate_pll:
  assumes "spec_accumulate f c rev_nr sf = Some r"
  shows "case r of
           Inl e \<Rightarrow>
             pll_accumulate \<lparr>pll_rev = rev_nr, clock = c, flux = f, time = t, clocked_zeros = z\<rparr> sf
               = Some (Inl e)
         | Inr (f', sf') \<Rightarrow>
             pll_accumulate \<lparr>pll_rev = rev_nr, clock = c, flux = f, time = t, clocked_zeros = z\<rparr> sf
               = Some (Inr (\<lparr>pll_rev = rev_nr, clock = c, flux = f', time = t, clocked_zeros = z\<rparr>, sf'))"
  using assms
proof (induct rule: spec_accumulate.raw_induct [rotated, consumes 1, case_names step])
  case (step g f c rev_nr sf r)
  let ?p = "\<lparr>pll_rev = rev_nr, clock = c, flux = f, time = t, clocked_zeros = z\<rparr>"
  show ?case
  proof (cases "f <s c_div c 2")
    case False
    with step(2) have "r = Inr (f, sf)" by simp
    moreover from False have "pll_accumulate ?p sf = Some (Inr (?p, sf))"
      by (subst pll_accumulate.simps) simp
    ultimately show ?thesis by simp
  next
    case True
    show ?thesis
    proof (cases "scp_next_flux sf rev_nr")
      case None
      with True step(2) show ?thesis by simp
    next
      case (Some a)
      show ?thesis
      proof (cases a)
        case (Inl e)
        with Some True step(2) have "r = Inl e" by simp
        moreover from Inl Some True have "pll_accumulate ?p sf = Some (Inl e)"
          by (subst pll_accumulate.simps) simp
        ultimately show ?thesis by simp
      next
        case (Inr b)
        obtain v sf1 where b: "b = (v, sf1)" by (cases b)
        from Inr b Some True step(2) have "g (f + 25 * v) c rev_nr sf1 = Some r" by simp
        note ih = step(1) [OF this]
        from Inr b Some True
        have "pll_accumulate ?p sf =
              pll_accumulate \<lparr>pll_rev = rev_nr, clock = c, flux = f + 25 * v, time = t,
                                clocked_zeros = z\<rparr> sf1"
          by (subst pll_accumulate.simps) simp
        with ih show ?thesis by (cases r) (simp_all split: prod.splits)
      qed
    qed
  qed
qed

lemma pll_accumulate_eq:
  "pll_accumulate p sf =
     (case spec_accumulate (flux p) (clock p) (pll_rev p) sf of
        None \<Rightarrow> None
      | Some (Inl e) \<Rightarrow> Some (Inl e)
      | Some (Inr (f, sf1)) \<Rightarrow> Some (Inr (p\<lparr>flux := f\<rparr>, sf1)))"
proof (cases "spec_accumulate (flux p) (clock p) (pll_rev p) sf")
  case None
  have "pll_accumulate p sf = None"
  proof (cases "pll_accumulate p sf")
    case (Some r)
    from pll_accumulate_spec [OF Some] None show ?thesis
      by (cases r) (simp_all split: prod.splits)
  qed simp
  with None show ?thesis by simp
next
  case (Some r)
  have p: "\<lparr>pll_rev = pll_rev p, clock = clock p, flux = flux p, time = time p,
            clocked_zeros = clocked_zeros p\<rparr> = p" by simp
  have q: "\<lparr>pll_rev = pll_rev p, clock = clock p, flux = f, time = time p,
            clocked_zeros = clocked_zeros p\<rparr> = p\<lparr>flux := f\<rparr>" for f
    by simp
  from spec_accumulate_pll [OF Some, of "time p" "clocked_zeros p"] Some show ?thesis
    by (cases r) (simp_all add: p q split: prod.splits)
qed

text \<open>
  Claim C4: for every PLL state and session, one call of \<^verbatim>\<open>pll_next_bit\<close> is one call
  of the specification's \<^verbatim>\<open>next_bit\<close>: the accumulation (25 times \<^verbatim>\<open>next_flux\<close> added
  to the flux while it is below half the clock), then the advance, the classification and
  the corrections. The two return the same bit, state and session, the same fault, or
  neither returns. The code's macros and percentages come to the constants 1800, 2200,
  5/100 and 40/100, and every division is \<open>c_div\<close>, which truncates toward zero.
\<close>

theorem pll_next_bit_refines_spec: "pll_next_bit p sf = spec_next_bit p sf"
  by (simp add: pll_next_bit_def spec_next_bit_def pll_accumulate_eq pll_clock_bit_eq
      split: option.splits sum.splits prod.splits)

lemma spec_clamp_band: "1800 \<le>s spec_clamp c \<and> spec_clamp c \<le>s 2200"
  by (simp add: spec_clamp_def word_sless_alt word_sle_eq)

lemma pll_clock_bit_band:
  "clock_in_band p \<Longrightarrow> clock_in_band (snd (pll_clock_bit p))"
  using spec_clamp_band
  by (simp add: pll_clock_bit_eq spec_classify_def clock_in_band_def Let_def)

lemma pll_accumulate_keeps_aux:
  assumes "pll_accumulate p sf = Some r"
  shows "case r of Inl e \<Rightarrow> True
         | Inr (p', sf') \<Rightarrow> clock p' = clock p \<and> pll_rev p' = pll_rev p \<and> time p' = time p
             \<and> clocked_zeros p' = clocked_zeros p"
  using assms
proof (induct rule: pll_accumulate.raw_induct [rotated, consumes 1, case_names step])
  case (step f p sf r)
  show ?case
  proof (cases "flux p <s c_div (clock p) 2")
    case False
    with step(2) have "r = Inr (p, sf)" by simp
    then show ?thesis by simp
  next
    case True
    show ?thesis
    proof (cases "scp_next_flux sf (pll_rev p)")
      case None
      with True step(2) show ?thesis by simp
    next
      case (Some a)
      show ?thesis
      proof (cases a)
        case (Inl e)
        with Some True step(2) have "r = Inl e" by simp
        then show ?thesis by simp
      next
        case (Inr b)
        obtain v sf1 where b: "b = (v, sf1)" by (cases b)
        from Inr b Some True step(2)
        have "f (p\<lparr>flux := flux p + 25 * v\<rparr>) sf1 = Some r" by simp
        from step(1) [OF this] show ?thesis
          by (cases r) (simp_all split: prod.splits)
      qed
    qed
  qed
qed

lemma pll_accumulate_keeps:
  assumes "pll_accumulate p sf = Some (Inr (p', sf'))"
  shows "clock p' = clock p \<and> pll_rev p' = pll_rev p \<and> time p' = time p
           \<and> clocked_zeros p' = clocked_zeros p"
  using pll_accumulate_keeps_aux [OF assms] by simp

lemma pll_next_bit_band:
  assumes "pll_next_bit p sf = Some (Inr (b, p', sf'))" and "clock_in_band p"
  shows "clock_in_band p'"
proof -
  from assms(1) obtain p1 sf1 where acc: "pll_accumulate p sf = Some (Inr (p1, sf1))"
    and bit: "pll_clock_bit p1 = (b, p')"
    by (auto simp: pll_next_bit_def split: option.splits sum.splits prod.splits)
  from pll_accumulate_keeps [OF acc] have "clock p1 = clock p" by simp
  with assms(2) have "clock_in_band p1" by (simp add: clock_in_band_def)
  from pll_clock_bit_band [OF this] bit show ?thesis by simp
qed

lemma pll_calls_band:
  "pll_calls n p sf = Some (Inr (bs, p', sf')) \<Longrightarrow> clock_in_band p \<Longrightarrow> clock_in_band p'"
proof (induction n arbitrary: p sf bs)
  case 0
  then show ?case by simp
next
  case (Suc n)
  from Suc.prems(1) obtain b p1 sf1 bs1 where
    one: "pll_next_bit p sf = Some (Inr (b, p1, sf1))"
    and rest: "pll_calls n p1 sf1 = Some (Inr (bs1, p', sf'))"
    by (auto split: option.splits sum.splits prod.splits)
  from pll_next_bit_band [OF one Suc.prems(2)] have "clock_in_band p1" .
  from Suc.IH [OF rest this] show ?case .
qed

text \<open>
  Claim C5: the clock starts at 2000, and after any number of calls of \<^verbatim>\<open>pll_next_bit\<close>
  that return, on any session, it lies between 1800 and 2200.
\<close>

theorem pll_clock_stays_in_band:
  "clock (pll_init rev_nr) = 2000 \<and>
   (pll_calls n (pll_init rev_nr) sf = Some (Inr (bs, p, sf'))
      \<longrightarrow> 1800 \<le>s clock p \<and> clock p \<le>s 2200)"
proof -
  have start: "clock_in_band (pll_init rev_nr)"
    by (simp add: clock_in_band_def pll_init_def CLOCK_CENTRE_def word_sle_eq)
  show ?thesis
  proof (intro conjI impI)
    show "clock (pll_init rev_nr) = 2000" by (simp add: pll_init_def CLOCK_CENTRE_def)
  next
    assume "pll_calls n (pll_init rev_nr) sf = Some (Inr (bs, p, sf'))"
    from pll_calls_band [OF this start] have "clock_in_band p" .
    then show "1800 \<le>s clock p" by (simp add: clock_in_band_def)
    from \<open>clock_in_band p\<close> show "clock p \<le>s 2200" by (simp add: clock_in_band_def)
  qed
qed

lemma sint_of_int_s32:
  assumes "- (2 ^ 31) \<le> x" and "x < 2 ^ 31"
  shows "sint (word_of_int x :: s32) = x"
  using assms by (simp add: sint_sbintrunc' signed_take_bit_int_eq_self)

lemma s32_add_unsigned:
  fixes a :: s32 and v :: u32
  assumes "sint a + uint v < 2 ^ 31"
  shows "sint (a + v) = sint a + uint v"
proof -
  have ea: "(word_of_int (sint a) :: s32) = a" by (metis scast_eq scast_id)
  have ev: "(word_of_int (uint v) :: u32) = v" by (rule word_of_int_uint)
  have "(word_of_int (sint a + uint v) :: s32) = word_of_int (sint a) + word_of_int (uint v)"
    by (rule of_int_add)
  also have "\<dots> = a + v" by (simp only: ea ev)
  finally have e: "a + v = word_of_int (sint a + uint v)" by (rule sym)
  have lo: "- (2 ^ 31) \<le> sint a" using sint_ge [of a] by simp
  have "0 \<le> uint v" by simp
  with lo have "- (2 ^ 31) \<le> sint a + uint v" by linarith
  moreover note assms
  ultimately have "sint (word_of_int (sint a + uint v) :: s32) = sint a + uint v"
    by (rule sint_of_int_s32)
  with e show ?thesis by (simp only:)
qed

lemma c_div_2_band:
  assumes "clock_in_band p"
  shows "900 \<le> sint (c_div (clock p) 2)" and "sint (c_div (clock p) 2) \<le> 1100"
proof -
  from assms have b: "1800 \<le> sint (clock p)" "sint (clock p) \<le> 2200"
    by (simp_all add: clock_in_band_def word_sle_eq)
  then have "sint (clock p) sdiv 2 = sint (clock p) div 2"
    by (simp add: signed_divide_int_def sgn_if)
  with b have "900 \<le> sint (clock p) sdiv 2" "sint (clock p) sdiv 2 \<le> 1100" by simp_all
  then show "900 \<le> sint (c_div (clock p) 2)" and "sint (c_div (clock p) 2) \<le> 1100"
    by (simp_all add: c_div_def sint_of_int_s32)
qed

lemma flux_value_bounds:
  fixes t :: u16
  assumes "t \<noteq> 0" and "25 * (k * 65536 + unat t) + 1100 \<le> 2 ^ 31"
  shows "25 \<le> unat (25 * (of_nat k * 0x10000 + ucast t :: u32))"
    and "unat (25 * (of_nat k * 0x10000 + ucast t :: u32)) = 25 * (k * 65536 + unat t)"
proof -
  from assms(1) have t0: "1 \<le> unat t" by (simp add: unat_eq_zero Suc_le_eq unat_gt_0)
  from assms(2) have b: "25 * (k * 65536 + unat t) < 4294967296" by simp
  then have "unat (25 * (of_nat k * 0x10000 + ucast t :: u32)) = 25 * (k * 65536 + unat t)"
    by (simp add: unat_word_ariths unat_ucast_sample unat_of_nat mod_simps)
  then show "unat (25 * (of_nat k * 0x10000 + ucast t :: u32)) = 25 * (k * 65536 + unat t)" .
  with t0 show "25 \<le> unat (25 * (of_nat k * 0x10000 + ucast t :: u32))" by simp
qed

lemma slice_props_cong:
  assumes "slice sf' rev_nr = slice sf rev_nr"
  shows "slice_has_flux sf' rev_nr = slice_has_flux sf rev_nr"
    and "intervals_fit sf' rev_nr = intervals_fit sf rev_nr"
  using assms by (simp_all add: slice_has_flux_def intervals_fit_def slice_intervals_def)

text \<open>One round of the accumulation loop, for a slice whose intervals fit.\<close>

lemma accumulate_round:
  assumes ok: "slice_ok sf rev_nr" and co: "cursor_ok sf rev_nr" and hf: "slice_has_flux sf rev_nr"
    and fit: "intervals_fit sf rev_nr" and band: "clock_in_band p"
    and lt: "flux p <s c_div (clock p) 2"
  obtains v sf' where "scp_next_flux sf rev_nr = Some (Inr (v, sf'))"
    and "sint (flux p) + 25 \<le> sint (flux p + 25 * v)"
    and "slice_ok sf' rev_nr" and "cursor_ok sf' rev_nr" and "slice sf' rev_nr = slice sf rev_nr"
proof -
  from next_flux_returns [OF ok co hf] obtain k and t :: u16 and sf' where
    nf: "scp_next_flux sf rev_nr = Some (Inr (of_nat k * 0x10000 + ucast t, sf'))"
    and t: "t \<noteq> 0" and k: "\<exists>x \<in> set (slice_intervals sf rev_nr). k * 0x10000 + unat t \<le> x"
    and inv: "slice_ok sf' rev_nr" "cursor_ok sf' rev_nr" "slice sf' rev_nr = slice sf rev_nr"
    by blast
  let ?v = "of_nat k * 0x10000 + ucast t :: u32"
  from k fit have k': "25 * (k * 65536 + unat t) + 1100 \<le> 2 ^ 31"
    by (auto simp: intervals_fit_def list_all_iff)
  note b = flux_value_bounds [OF t k']
  have un: "uint (25 * ?v) = int (unat (25 * ?v))" by (rule uint_nat)
  from b(1) have "25 \<le> int (unat (25 * ?v))" by linarith
  moreover from k' have k'': "25 * (k * 65536 + unat t) + 1100 \<le> (2147483648 :: nat)" by simp
  from b(2) k'' have "unat (25 * ?v) + 1100 \<le> 2147483648" by linarith
  then have "int (unat (25 * ?v)) + 1100 \<le> 2147483648" by linarith
  ultimately have u: "25 \<le> uint (25 * ?v)" "uint (25 * ?v) + 1100 \<le> 2147483648"
    by (simp_all only: un)
  from lt c_div_2_band(2) [OF band] have "sint (flux p) < 1100" by (simp add: word_sless_alt)
  with u(2) have "sint (flux p) + uint (25 * ?v) < 2 ^ 31" by simp
  from s32_add_unsigned [OF this] u(1)
  have "sint (flux p) + 25 \<le> sint (flux p + 25 * ?v)" by simp
  with nf inv show ?thesis by (intro that [of ?v sf'])
qed

lemma accumulate_returns:
  assumes "slice_ok sf rev_nr" and "cursor_ok sf rev_nr" and "slice_has_flux sf rev_nr"
    and "intervals_fit sf rev_nr" and "clock_in_band p" and "pll_rev p = rev_nr"
  shows "\<exists>p' sf'. pll_accumulate p sf = Some (Inr (p', sf'))"
  using assms
proof (induction "nat (sint (c_div (clock p) 2) - sint (flux p))" arbitrary: p sf rule: less_induct)
  case less
  show ?case
  proof (cases "flux p <s c_div (clock p) 2")
    case False
    then have "pll_accumulate p sf = Some (Inr (p, sf))"
      by (subst pll_accumulate.simps) simp
    then show ?thesis by blast
  next
    case True
    from accumulate_round [OF less.prems(1-5) True] obtain v sf1 where
      nf: "scp_next_flux sf rev_nr = Some (Inr (v, sf1))"
      and up: "sint (flux p) + 25 \<le> sint (flux p + 25 * v)"
      and inv: "slice_ok sf1 rev_nr" "cursor_ok sf1 rev_nr" "slice sf1 rev_nr = slice sf rev_nr"
      by blast
    let ?p1 = "p\<lparr>flux := flux p + 25 * v\<rparr>"
    from True have "sint (flux p) < sint (c_div (clock p) 2)" by (simp add: word_sless_alt)
    with up have m: "nat (sint (c_div (clock ?p1) 2) - sint (flux ?p1))
                   < nat (sint (c_div (clock p) 2) - sint (flux p))" by simp
    have b: "clock_in_band ?p1" using less.prems(5) by (simp add: clock_in_band_def)
    have r: "pll_rev ?p1 = rev_nr" using less.prems(6) by simp
    from slice_props_cong [OF inv(3)] less.prems(3,4)
    have h: "slice_has_flux sf1 rev_nr" "intervals_fit sf1 rev_nr" by simp_all
    from less.hyps [OF m inv(1,2) h b r] obtain p' sf' where
      "pll_accumulate ?p1 sf1 = Some (Inr (p', sf'))" by blast
    moreover have "pll_accumulate p sf = pll_accumulate ?p1 sf1"
      using True nf less.prems(6) by (subst pll_accumulate.simps) simp
    ultimately show ?thesis by simp
  qed
qed

section \<open>Example runs of the PLL\<close>

lemma next_flux_inside:
  assumes "dat sf = Some buf"
    and "unat (iter_ptr sf) < unat (iter_limit sf)"
    and "unat (iter_ptr sf) < length buf"
    and "be16toh (buf ! unat (iter_ptr sf)) = t" and "t \<noteq> 0"
  shows "scp_next_flux sf rev_nr = Some (Inr (ucast t, sf\<lparr>iter_ptr := iter_ptr sf + 1\<rparr>))"
  using flux_scan [of sf buf 0 rev_nr 0] assms by (simp add: scp_next_flux_def)

lemma next_flux_restart:
  assumes "iter_limit sf \<le> iter_ptr sf" and "slice_ok sf rev_nr"
  shows "scp_next_flux sf rev_nr =
           scp_next_flux (sf\<lparr>iter_limit := slice_end sf rev_nr, iter_ptr := slice_start sf rev_nr\<rparr>)
             rev_nr"
  using flux_loop_restart [OF assms] by (simp add: scp_next_flux_def)

lemma steady_flux_1:
  "scp_next_flux steady_session 0 =
     Some (Inr (84, steady_session\<lparr>iter_limit := 3, iter_ptr := 1\<rparr>))"
proof -
  have ok: "slice_ok steady_session 0"
    by (simp add: slice_ok_def slice_start_def slice_end_def steady_session_def zero_session_def)
  have p: "iter_limit steady_session \<le> iter_ptr steady_session"
    by (simp add: steady_session_def zero_session_def)
  have se: "slice_end steady_session 0 = 3" "slice_start steady_session 0 = 0"
    by (simp_all add: slice_start_def slice_end_def steady_session_def zero_session_def)
  let ?s = "steady_session\<lparr>iter_limit := 3, iter_ptr := 0\<rparr>"
  have "scp_next_flux ?s 0 = Some (Inr (ucast (84 :: u16), ?s\<lparr>iter_ptr := iter_ptr ?s + 1\<rparr>))"
    by (rule next_flux_inside [where buf = "[(0, 84), (0, 76), (0, 80)]"])
       (simp_all add: steady_session_def zero_session_def be16toh_def)
  then show ?thesis using next_flux_restart [OF p ok] se by simp
qed

lemma steady_flux_2:
  "scp_next_flux (steady_session\<lparr>iter_limit := 3, iter_ptr := 1\<rparr>) 0 =
     Some (Inr (76, steady_session\<lparr>iter_limit := 3, iter_ptr := 2\<rparr>))"
proof -
  let ?s = "steady_session\<lparr>iter_limit := 3, iter_ptr := 1\<rparr>"
  have "scp_next_flux ?s 0 = Some (Inr (ucast (76 :: u16), ?s\<lparr>iter_ptr := iter_ptr ?s + 1\<rparr>))"
    by (rule next_flux_inside [where buf = "[(0, 84), (0, 76), (0, 80)]"])
       (simp_all add: steady_session_def zero_session_def be16toh_def)
  then show ?thesis by simp
qed

lemma steady_bit_1:
  "pll_next_bit (pll_init 0) steady_session =
     Some (Inr (1, \<lparr>pll_rev = 0, clock = 2005, flux = 40, time = 2060, clocked_zeros = 0\<rparr>,
                steady_session\<lparr>iter_limit := 3, iter_ptr := 1\<rparr>))"
proof -
  let ?p1 = "(pll_init 0)\<lparr>flux := 2100\<rparr>"
  let ?s1 = "steady_session\<lparr>iter_limit := 3, iter_ptr := 1\<rparr>"
  have "pll_accumulate (pll_init 0) steady_session = pll_accumulate ?p1 ?s1"
    by (subst pll_accumulate.simps)
       (simp add: steady_flux_1 pll_init_def CLOCK_CENTRE_def c_div_def word_sless_alt)
  also have "\<dots> = Some (Inr (?p1, ?s1))"
    by (subst pll_accumulate.simps)
       (simp add: pll_init_def CLOCK_CENTRE_def c_div_def word_sless_alt)
  finally have acc: "pll_accumulate (pll_init 0) steady_session = Some (Inr (?p1, ?s1))" .
  have "pll_clock_bit ?p1 =
      (1, \<lparr>pll_rev = 0, clock = 2005, flux = 40, time = 2060, clocked_zeros = 0\<rparr>)"
    by (simp add: pll_clock_bit_eq spec_classify_def spec_clamp_def pll_init_def CLOCK_CENTRE_def
        c_div_def word_sless_alt word_sle_eq Let_def)
  with acc show ?thesis by (simp add: pll_next_bit_def)
qed

lemma steady_bit_2:
  "pll_next_bit \<lparr>pll_rev = 0, clock = 2005, flux = 40, time = 2060, clocked_zeros = 0\<rparr>
       (steady_session\<lparr>iter_limit := 3, iter_ptr := 1\<rparr>) =
     Some (Inr (1, \<lparr>pll_rev = 0, clock = 2002, flux = - 26, time = 4026, clocked_zeros = 0\<rparr>,
                steady_session\<lparr>iter_limit := 3, iter_ptr := 2\<rparr>))"
proof -
  let ?p0 = "\<lparr>pll_rev = 0, clock = 2005, flux = 40, time = 2060, clocked_zeros = 0\<rparr>"
  let ?p1 = "?p0\<lparr>flux := 1940\<rparr>"
  let ?s0 = "steady_session\<lparr>iter_limit := 3, iter_ptr := 1\<rparr>"
  let ?s1 = "steady_session\<lparr>iter_limit := 3, iter_ptr := 2\<rparr>"
  have "pll_accumulate ?p0 ?s0 = pll_accumulate ?p1 ?s1"
    by (subst pll_accumulate.simps)
       (simp add: steady_flux_2 c_div_def word_sless_alt)
  also have "\<dots> = Some (Inr (?p1, ?s1))"
    by (subst pll_accumulate.simps)
       (simp add: c_div_def word_sless_alt)
  finally have acc: "pll_accumulate ?p0 ?s0 = Some (Inr (?p1, ?s1))" .
  have "pll_clock_bit ?p1 =
      (1, \<lparr>pll_rev = 0, clock = 2002, flux = - 26, time = 4026, clocked_zeros = 0\<rparr>)"
    by (simp add: pll_clock_bit_eq spec_classify_def spec_clamp_def
        c_div_def word_sless_alt word_sle_eq Let_def)
  with acc show ?thesis by (simp add: pll_next_bit_def)
qed

lemma steady_calls:
  "pll_calls 2 (pll_init 0) steady_session =
     Some (Inr ([1, 1], \<lparr>pll_rev = 0, clock = 2002, flux = - 26, time = 4026, clocked_zeros = 0\<rparr>,
                steady_session\<lparr>iter_limit := 3, iter_ptr := 2\<rparr>))"
proof -
  have "pll_calls 2 (pll_init 0) steady_session = pll_calls (Suc (Suc 0)) (pll_init 0) steady_session"
    by (simp add: numeral_2_eq_2)
  then show ?thesis by (simp add: steady_bit_1 steady_bit_2)
qed

text \<open>Two calls on the example session: both return 1, and the clock moves to 2005 and 2002.\<close>

theorem pll_clock_stays_in_band_witness:
  "pll_calls 2 (pll_init 0) steady_session =
     Some (Inr ([1, 1], \<lparr>pll_rev = 0, clock = 2002, flux = - 26, time = 4026, clocked_zeros = 0\<rparr>,
                steady_session\<lparr>iter_limit := 3, iter_ptr := 2\<rparr>))
   \<and> clock (pll_init 0) = 2000
   \<and> 1800 \<le>s (2002 :: s32) \<and> (2002 :: s32) \<le>s 2200"
  using pll_clock_stays_in_band [of 0 2 steady_session "[1, 1]"
      "\<lparr>pll_rev = 0, clock = 2002, flux = - 26, time = 4026, clocked_zeros = 0\<rparr>"
      "steady_session\<lparr>iter_limit := 3, iter_ptr := 2\<rparr>"] steady_calls
  by simp

section \<open>The iterator stays in its slice\<close>

lemma flux_loop_keeps_cursor:
  assumes "scp_flux_loop sf rev_nr val = Some r"
  shows "slice_ok sf rev_nr \<and> cursor_ok sf rev_nr \<longrightarrow>
           (case r of Inl e \<Rightarrow> True
            | Inr (v, sf') \<Rightarrow> slice_ok sf' rev_nr \<and> cursor_ok sf' rev_nr
                \<and> slice_start sf' rev_nr = slice_start sf rev_nr
                \<and> slice_end sf' rev_nr = slice_end sf rev_nr)"
  using assms
proof (induct rule: scp_flux_loop.raw_induct [rotated, consumes 1, case_names step])
  case (step f sf rev_nr val r)
  show ?case
  proof (intro impI, elim conjE)
    assume ok: "slice_ok sf rev_nr" and co: "cursor_ok sf rev_nr"
    from flux_step_cursor [OF ok co, of val] obtain sf1 val1 buf where
      st: "scp_flux_step sf rev_nr val =
          (if be16toh (buf ! unat (iter_ptr sf1)) \<noteq> 0
           then Flux_Return (val1 + ucast (be16toh (buf ! unat (iter_ptr sf1)))) (sf1\<lparr>iter_ptr := iter_ptr sf1 + 1\<rparr>)
           else Flux_Again (val1 + 0x10000) (sf1\<lparr>iter_ptr := iter_ptr sf1 + 1\<rparr>))"
      and so: "slice_ok (sf1\<lparr>iter_ptr := iter_ptr sf1 + 1\<rparr>) rev_nr"
      and c1: "cursor_ok (sf1\<lparr>iter_ptr := iter_ptr sf1 + 1\<rparr>) rev_nr"
      and s1: "slice_start (sf1\<lparr>iter_ptr := iter_ptr sf1 + 1\<rparr>) rev_nr = slice_start sf rev_nr"
      and e1: "slice_end (sf1\<lparr>iter_ptr := iter_ptr sf1 + 1\<rparr>) rev_nr = slice_end sf rev_nr"
      by blast
    let ?sf2 = "sf1\<lparr>iter_ptr := iter_ptr sf1 + 1\<rparr>"
    show "case r of Inl e \<Rightarrow> True
            | Inr (v, sf') \<Rightarrow> slice_ok sf' rev_nr \<and> cursor_ok sf' rev_nr
                \<and> slice_start sf' rev_nr = slice_start sf rev_nr
                \<and> slice_end sf' rev_nr = slice_end sf rev_nr"
    proof (cases "be16toh (buf ! unat (iter_ptr sf1)) \<noteq> 0")
      case True
      with st step(2) have "r = Inr (val1 + ucast (be16toh (buf ! unat (iter_ptr sf1))), ?sf2)"
        by simp
      with so c1 s1 e1 show ?thesis by simp
    next
      case False
      with st step(2) have "f ?sf2 rev_nr (val1 + 0x10000) = Some r" by simp
      from step(1) [OF this] so c1 s1 e1 show ?thesis
        by (cases r) (simp_all split: prod.splits)
    qed
  qed
qed

lemma reset_cursor:
  "cursor_ok (scp_reset sf) rev_nr" "slice_ok (scp_reset sf) rev_nr = slice_ok sf rev_nr"
  "slice_start (scp_reset sf) rev_nr = slice_start sf rev_nr"
  "slice_end (scp_reset sf) rev_nr = slice_end sf rev_nr"
  "iter_limit (scp_reset sf) \<le> iter_ptr (scp_reset sf)"
  by (simp_all add: cursor_ok_def scp_reset_def)

text \<open>
  What holds at the beginning of every iteration after a reset: the cursor is in order for
  the slice, and from the second iteration on the limit is the end of the slice.
\<close>

lemma flux_iterations_cursor:
  assumes "slice_ok sf rev_nr" and "scp_flux_iterations n sf rev_nr = Some (sf1, val)"
  shows "slice_ok sf1 rev_nr \<and> cursor_ok sf1 rev_nr
         \<and> slice_start sf1 rev_nr = slice_start sf rev_nr
         \<and> slice_end sf1 rev_nr = slice_end sf rev_nr
         \<and> (n = 0 \<longrightarrow> iter_limit sf1 \<le> iter_ptr sf1)
         \<and> (0 < n \<longrightarrow> iter_limit sf1 = slice_end sf rev_nr)"
  using assms(2)
proof (induction n arbitrary: sf1 val)
  case 0
  then have "sf1 = scp_reset sf" by simp
  with assms(1) show ?case by (simp add: reset_cursor)
next
  case (Suc n)
  from Suc.prems obtain sf0 val0 where
    it: "scp_flux_iterations n sf rev_nr = Some (sf0, val0)"
    and st: "(case scp_flux_step sf0 rev_nr val0 of
                Flux_Fault e \<Rightarrow> None
              | Flux_Return v sf2 \<Rightarrow> Some (sf2, 0)
              | Flux_Again v sf2 \<Rightarrow> Some (sf2, v)) = Some (sf1, val)"
    by (auto split: option.splits)
  from Suc.IH [OF it] have ok: "slice_ok sf0 rev_nr" and co: "cursor_ok sf0 rev_nr"
    and s0: "slice_start sf0 rev_nr = slice_start sf rev_nr"
    and e0: "slice_end sf0 rev_nr = slice_end sf rev_nr" by simp_all
  from flux_step_cursor [OF ok co, of val0] obtain sf' val' buf where
    step: "scp_flux_step sf0 rev_nr val0 =
          (if be16toh (buf ! unat (iter_ptr sf')) \<noteq> 0
           then Flux_Return (val' + ucast (be16toh (buf ! unat (iter_ptr sf')))) (sf'\<lparr>iter_ptr := iter_ptr sf' + 1\<rparr>)
           else Flux_Again (val' + 0x10000) (sf'\<lparr>iter_ptr := iter_ptr sf' + 1\<rparr>))"
    and so: "slice_ok (sf'\<lparr>iter_ptr := iter_ptr sf' + 1\<rparr>) rev_nr"
    and c1: "cursor_ok (sf'\<lparr>iter_ptr := iter_ptr sf' + 1\<rparr>) rev_nr"
    and s1: "slice_start (sf'\<lparr>iter_ptr := iter_ptr sf' + 1\<rparr>) rev_nr = slice_start sf0 rev_nr"
    and e1: "slice_end (sf'\<lparr>iter_ptr := iter_ptr sf' + 1\<rparr>) rev_nr = slice_end sf0 rev_nr"
    and l1: "iter_limit sf' = slice_end sf0 rev_nr"
    by blast
  from st step have "sf1 = sf'\<lparr>iter_ptr := iter_ptr sf' + 1\<rparr>" by (simp split: if_splits)
  with so c1 s1 e1 l1 s0 e0 show ?case by simp
qed

text \<open>
  The iterations are those of the calls: a call of \<^verbatim>\<open>scp_next_flux\<close> that returns,
  made where an iteration begins with the sum 0, ends some iterations later, where the
  next call begins.
\<close>

lemma flux_loop_iterations:
  assumes "scp_flux_loop s rev_nr val = Some r"
  shows "case r of
           Inl e \<Rightarrow> True
         | Inr (v, s') \<Rightarrow>
             (\<forall>n. scp_flux_iterations n sf rev_nr = Some (s, val) \<longrightarrow>
                (\<exists>k. scp_flux_iterations (Suc (n + k)) sf rev_nr = Some (s', 0)))"
  using assms
proof (induct rule: scp_flux_loop.raw_induct [rotated, consumes 1, case_names step])
  case (step g s rev_nr val r)
  show ?case
  proof (cases "scp_flux_step s rev_nr val")
    case (Flux_Fault e)
    with step(2) have "r = Inl e" by simp
    then show ?thesis by simp
  next
    case (Flux_Return v s')
    with step(2) have r: "r = Inr (v, s')" by simp
    have "\<exists>k. scp_flux_iterations (Suc (n + k)) sf rev_nr = Some (s', 0)"
      if "scp_flux_iterations n sf rev_nr = Some (s, val)" for n
      using that Flux_Return by (intro exI [of _ 0]) simp
    with r show ?thesis by simp
  next
    case (Flux_Again v s2)
    with step(2) have "g s2 rev_nr v = Some r" by simp
    note ih = step(1) [OF this]
    show ?thesis
    proof (cases r)
      case (Inl e)
      then show ?thesis by simp
    next
      case (Inr c)
      obtain w s' where c: "c = (w, s')" by (cases c)
      from ih Inr c have a: "\<forall>n. scp_flux_iterations n sf rev_nr = Some (s2, v) \<longrightarrow>
                (\<exists>k. scp_flux_iterations (Suc (n + k)) sf rev_nr = Some (s', 0))" by simp
      have "\<exists>k. scp_flux_iterations (Suc (n + k)) sf rev_nr = Some (s', 0)"
        if "scp_flux_iterations n sf rev_nr = Some (s, val)" for n
      proof -
        from that Flux_Again have "scp_flux_iterations (Suc n) sf rev_nr = Some (s2, v)" by simp
        with a obtain k where "scp_flux_iterations (Suc (Suc n + k)) sf rev_nr = Some (s', 0)"
          by blast
        then have "scp_flux_iterations (Suc (n + Suc k)) sf rev_nr = Some (s', 0)" by simp
        then show ?thesis by (rule exI)
      qed
      with Inr c show ?thesis by simp
    qed
  qed
qed

lemma next_flux_iterations:
  assumes "scp_flux_iterations n sf rev_nr = Some (s, 0)"
    and "scp_next_flux s rev_nr = Some (Inr (v, s'))"
  shows "\<exists>k. scp_flux_iterations (Suc (n + k)) sf rev_nr = Some (s', 0)"
  using flux_loop_iterations [of s rev_nr 0 "Inr (v, s')" sf] assms
  by (simp add: scp_next_flux_def)

text \<open>
  Claim C6. Take a loaded buffer in which the slice of revolution \<open>rev_nr\<close> is in order
  (not empty, and inside the buffer), reset the cursor, and let the calls of
  \<^verbatim>\<open>scp_next_flux\<close> for that revolution run through any number \<open>n\<close> of iterations
  of their loop. At the beginning of the next iteration: when it is the very first after
  the reset, or when the cursor has reached or passed the end index of the revolution, the
  restart puts the cursor at the start of the slice, the limit at its end, and the
  accumulated sum to 0, and otherwise nothing is changed; every index that the loop reads
  from here on lies inside the slice of the revolution; and the iteration does not fault.
\<close>

theorem next_flux_stays_in_slice:
  assumes "slice_ok sf rev_nr" and "scp_flux_iterations n sf rev_nr = Some (sf1, val)"
  shows "(n = 0 \<or> slice_end sf rev_nr \<le> iter_ptr sf1 \<longrightarrow>
            scp_restart sf1 rev_nr val =
              Inr (sf1\<lparr>iter_limit := slice_end sf rev_nr, iter_ptr := slice_start sf rev_nr\<rparr>, 0))
         \<and> (\<not> (n = 0 \<or> slice_end sf rev_nr \<le> iter_ptr sf1) \<longrightarrow>
              scp_restart sf1 rev_nr val = Inr (sf1, val))
         \<and> (\<forall>i \<in> set (scp_flux_reads m sf1 rev_nr val).
                unat (slice_start sf rev_nr) \<le> i \<and> i < unat (slice_end sf rev_nr))
         \<and> scp_flux_iterations (Suc n) sf rev_nr \<noteq> None"
proof -
  from flux_iterations_cursor [OF assms] have ok: "slice_ok sf1 rev_nr"
    and co: "cursor_ok sf1 rev_nr"
    and s1: "slice_start sf1 rev_nr = slice_start sf rev_nr"
    and e1: "slice_end sf1 rev_nr = slice_end sf rev_nr"
    and first: "n = 0 \<Longrightarrow> iter_limit sf1 \<le> iter_ptr sf1"
    and later: "0 < n \<Longrightarrow> iter_limit sf1 = slice_end sf rev_nr" by simp_all
  from ok have r: "unat rev_nr < length (index_ptr sf1)" by (simp add: slice_ok_def)
  have due: "(n = 0 \<or> slice_end sf rev_nr \<le> iter_ptr sf1) = (iter_limit sf1 \<le> iter_ptr sf1)"
    using first later by (cases "n = 0") auto
  have a: "scp_restart sf1 rev_nr val =
              Inr (sf1\<lparr>iter_limit := slice_end sf rev_nr, iter_ptr := slice_start sf rev_nr\<rparr>, 0)"
    if "n = 0 \<or> slice_end sf rev_nr \<le> iter_ptr sf1"
  proof -
    from that due have "iter_limit sf1 \<le> iter_ptr sf1" by simp
    from restart_pending [OF this r, of val] s1 e1 show ?thesis by simp
  qed
  have b: "scp_restart sf1 rev_nr val = Inr (sf1, val)"
    if "\<not> (n = 0 \<or> slice_end sf rev_nr \<le> iter_ptr sf1)"
  proof -
    from that due have "\<not> iter_limit sf1 \<le> iter_ptr sf1" by simp
    then show ?thesis by (rule restart_inside)
  qed
  from flux_reads_in_slice [OF ok co, of m val] s1 e1
  have c: "\<forall>i \<in> set (scp_flux_reads m sf1 rev_nr val).
                unat (slice_start sf rev_nr) \<le> i \<and> i < unat (slice_end sf rev_nr)" by simp
  from flux_step_cursor [OF ok co, of val] obtain sf' val' buf where
    "scp_flux_step sf1 rev_nr val =
          (if be16toh (buf ! unat (iter_ptr sf')) \<noteq> 0
           then Flux_Return (val' + ucast (be16toh (buf ! unat (iter_ptr sf')))) (sf'\<lparr>iter_ptr := iter_ptr sf' + 1\<rparr>)
           else Flux_Again (val' + 0x10000) (sf'\<lparr>iter_ptr := iter_ptr sf' + 1\<rparr>))"
    by blast
  with assms(2) have d: "scp_flux_iterations (Suc n) sf rev_nr \<noteq> None" by simp
  from a b c d show ?thesis by blast
qed

lemma two_rev_session_ok:
  "slice_ok two_rev_session 1" "slice_start two_rev_session 1 = 1"
  "slice_end two_rev_session 1 = 3"
  by (simp_all add: slice_ok_def slice_start_def slice_end_def two_rev_session_def zero_session_def)

lemma two_rev_iterations:
  "scp_flux_iterations (Suc 0) two_rev_session 1 =
     Some (two_rev_session\<lparr>iter_limit := 3, iter_ptr := 2\<rparr>, 0)"
  "scp_flux_iterations (Suc (Suc 0)) two_rev_session 1 =
     Some (two_rev_session\<lparr>iter_limit := 3, iter_ptr := 3\<rparr>, 0)"
  "scp_flux_iterations (Suc (Suc (Suc 0))) two_rev_session 1 =
     Some (two_rev_session\<lparr>iter_limit := 3, iter_ptr := 2\<rparr>, 0)"
  by (simp_all add: scp_flux_step_def scp_restart_def scp_reset_def two_rev_session_def
      zero_session_def be16toh_def Let_def)

text \<open>
  The example: the second of two revolutions, which lies between the indices 1 and 3 of the
  buffer. After the reset the first iteration restarts at index 1; after two iterations the
  cursor stands at the end index 3, and the restart puts it back to index 1, not to index
  0, where the other revolution lies.
\<close>

theorem next_flux_stays_in_slice_witness:
  "scp_flux_iterations (Suc (Suc 0)) two_rev_session 1 =
     Some (two_rev_session\<lparr>iter_limit := 3, iter_ptr := 3\<rparr>, 0)
   \<and> scp_restart (two_rev_session\<lparr>iter_limit := 3, iter_ptr := 3\<rparr>) 1 0 =
       Inr (two_rev_session\<lparr>iter_limit := 3, iter_ptr := 1\<rparr>, 0)
   \<and> scp_flux_reads (Suc 0) (two_rev_session\<lparr>iter_limit := 3, iter_ptr := 3\<rparr>) 1 0 = [1]
   \<and> scp_flux_iterations (Suc (Suc (Suc 0))) two_rev_session 1 \<noteq> None"
proof -
  have r: "scp_flux_reads (Suc 0) (two_rev_session\<lparr>iter_limit := 3, iter_ptr := 3\<rparr>) 1 0 = [1]"
    by (simp add: scp_restart_def scp_flux_step_def two_rev_session_def
        zero_session_def be16toh_def Let_def)
  from next_flux_stays_in_slice [OF two_rev_session_ok(1) two_rev_iterations(2), of "Suc 0"]
    two_rev_session_ok(2,3) two_rev_iterations(2) r
  show ?thesis by simp
qed

section \<open>Termination of the PLL\<close>

text \<open>
  Claim C9, as the code has it. For a loaded buffer with a non-empty slice that holds a
  non-zero sample, and a cursor in order for the revolution, \<^verbatim>\<open>scp_next_flux\<close> returns,
  and what it returns is not 0. The flux is a 32-bit \<^verbatim>\<open>int\<close>, so that alone does not
  make the accumulation loop end. When moreover every interval of the slice fits (a run of
  \<open>k\<close> zero samples followed by the sample \<open>v\<close> has
  \<open>25 * (k * 0x10000 + v) + 1100 \<le> 2 ^ 31\<close>) and the clock is in its band, every
  round of the accumulation loop raises the flux by at least 25, and \<^verbatim>\<open>pll_next_bit\<close>
  returns.
\<close>

theorem next_bit_terminates:
  assumes "slice_ok sf rev_nr" and "cursor_ok sf rev_nr" and "slice_has_flux sf rev_nr"
  shows "(\<exists>v sf'. scp_next_flux sf rev_nr = Some (Inr (v, sf')) \<and> v \<noteq> 0)
         \<and> (intervals_fit sf rev_nr \<and> clock_in_band p \<and> pll_rev p = rev_nr \<longrightarrow>
              (flux p <s c_div (clock p) 2 \<longrightarrow>
                 (\<exists>v sf'. scp_next_flux sf rev_nr = Some (Inr (v, sf'))
                    \<and> sint (flux p) + 25 \<le> sint (flux p + 25 * v)))
              \<and> (\<exists>b p' sf'. pll_next_bit p sf = Some (Inr (b, p', sf'))))"
proof (intro conjI impI)
  from next_flux_returns [OF assms] obtain k and t :: u16 and sf' where
    "scp_next_flux sf rev_nr = Some (Inr (of_nat k * 0x10000 + ucast t, sf'))" and "t \<noteq> 0"
    by blast
  with flux_value_nonzero [of t k]
  show "\<exists>v sf'. scp_next_flux sf rev_nr = Some (Inr (v, sf')) \<and> v \<noteq> 0" by blast
next
  assume h: "intervals_fit sf rev_nr \<and> clock_in_band p \<and> pll_rev p = rev_nr"
    and lt: "flux p <s c_div (clock p) 2"
  from h have z: "intervals_fit sf rev_nr" and b: "clock_in_band p" by simp_all
  from accumulate_round [OF assms z b lt]
  show "\<exists>v sf'. scp_next_flux sf rev_nr = Some (Inr (v, sf'))
          \<and> sint (flux p) + 25 \<le> sint (flux p + 25 * v)"
    by blast
next
  assume h: "intervals_fit sf rev_nr \<and> clock_in_band p \<and> pll_rev p = rev_nr"
  then have z: "intervals_fit sf rev_nr" and b: "clock_in_band p" and r: "pll_rev p = rev_nr"
    by simp_all
  from accumulate_returns [OF assms z b r] obtain p1 sf1 where
    "pll_accumulate p sf = Some (Inr (p1, sf1))" by blast
  then have "pll_next_bit p sf = Some (Inr (fst (pll_clock_bit p1), snd (pll_clock_bit p1), sf1))"
    by (simp add: pll_next_bit_def split: prod.splits)
  then show "\<exists>b p' sf'. pll_next_bit p sf = Some (Inr (b, p', sf'))" by blast
qed

lemma flux_intervals_zeros:
  "flux_intervals k (replicate n (0, 0) @ xs) = flux_intervals (k + n) xs"
  by (induction n arbitrary: k) (simp_all add: be16toh_def)

lemma edge_session_slice:
  "slice_ok edge_session 0" "cursor_ok edge_session 0"
  "slice edge_session 0 = replicate 1310 (0, 0) @ [(0, 1)]"
  by (simp_all add: slice_ok_def cursor_ok_def slice_def slice_start_def slice_end_def
      edge_session_def zero_session_def)

lemma edge_session_intervals:
  "slice_has_flux edge_session 0" "slice_intervals edge_session 0 = [1310 * 0x10000 + 1]"
  "intervals_fit edge_session 0"
proof -
  show "slice_has_flux edge_session 0"
    by (simp add: slice_has_flux_def edge_session_slice(3) be16toh_def)
  show i: "slice_intervals edge_session 0 = [1310 * 0x10000 + 1]"
    by (simp add: slice_intervals_def edge_session_slice(3) flux_intervals_zeros be16toh_def)
  show "intervals_fit edge_session 0" by (simp add: intervals_fit_def i)
qed

text \<open>
  The example: a slice of 1310 zero samples before the sample 1, whose one interval is
  85852161 ticks, and a fresh PLL.
\<close>

theorem next_bit_terminates_witness:
  "slice_ok edge_session 0 \<and> cursor_ok edge_session 0
   \<and> slice_has_flux edge_session 0
   \<and> slice_intervals edge_session 0 = [1310 * 0x10000 + 1]
   \<and> intervals_fit edge_session 0 \<and> clock_in_band (pll_init 0)
   \<and> (\<exists>v sf'. scp_next_flux edge_session 0 = Some (Inr (v, sf')) \<and> v \<noteq> 0)
   \<and> (\<exists>v sf'. scp_next_flux edge_session 0 = Some (Inr (v, sf'))
          \<and> sint (flux (pll_init 0)) + 25 \<le> sint (flux (pll_init 0) + 25 * v))
   \<and> (\<exists>b p' sf'. pll_next_bit (pll_init 0) edge_session = Some (Inr (b, p', sf')))"
proof -
  have b: "clock_in_band (pll_init 0)" "pll_rev (pll_init 0) = 0"
    "flux (pll_init 0) <s c_div (clock (pll_init 0)) 2"
    by (simp_all add: clock_in_band_def pll_init_def CLOCK_CENTRE_def c_div_def word_sle_eq
        word_sless_alt)
  from next_bit_terminates [OF edge_session_slice(1,2) edge_session_intervals(1),
      of "pll_init 0"]
    b edge_session_slice(1,2) edge_session_intervals
  show ?thesis by simp
qed

lemma wrap_session_ok:
  assumes "dat sf = dat wrap_session" and "index_ptr sf = index_ptr wrap_session"
  shows "slice_ok sf 0" and "slice_start sf 0 = 0" and "slice_end sf 0 = 32769"
  using assms
  by (simp_all add: slice_ok_def slice_start_def slice_end_def wrap_session_def zero_session_def)

lemma wrap_flux_first:
  assumes "dat sf = dat wrap_session" and "index_ptr sf = index_ptr wrap_session"
    and "iter_limit sf \<le> iter_ptr sf"
  shows "scp_next_flux sf 0 = Some (Inr (1, sf\<lparr>iter_limit := 32769, iter_ptr := 1\<rparr>))"
proof -
  let ?s = "sf\<lparr>iter_limit := 32769, iter_ptr := 0\<rparr>"
  have "scp_next_flux ?s 0 = Some (Inr (ucast (1 :: u16), ?s\<lparr>iter_ptr := iter_ptr ?s + 1\<rparr>))"
    by (rule next_flux_inside [where buf = "(0, 1) # replicate 32767 (0, 0) @ [(255, 255)]"])
       (simp_all add: assms(1) wrap_session_def zero_session_def be16toh_def)
  then show ?thesis
    using next_flux_restart [OF assms(3) wrap_session_ok(1) [OF assms(1,2)]]
      wrap_session_ok(2,3) [OF assms(1,2)]
    by simp
qed

lemma wrap_flux_second:
  assumes "dat sf = dat wrap_session" and "iter_ptr sf = 1" and "iter_limit sf = 32769"
  shows "scp_next_flux sf 0 = Some (Inr (0x7FFFFFFF, sf\<lparr>iter_ptr := 32769\<rparr>))"
proof -
  let ?buf = "(0, 1) # replicate 32767 (0, 0) @ [(255, 255)] :: sample list"
  have d: "dat sf = Some ?buf" using assms(1) by (simp add: wrap_session_def zero_session_def)
  have a: "unat (iter_ptr sf) + 32767 < unat (iter_limit sf)" using assms(2,3) by simp
  have b: "unat (iter_ptr sf) + 32767 < length ?buf" using assms(2) by simp
  have z: "\<forall>i<32767. be16toh (?buf ! (unat (iter_ptr sf) + i)) = 0"
    using assms(2) by (simp add: nth_append be16toh_def)
  have e: "?buf ! (unat (iter_ptr sf) + 32767) = (255, 255)"
    using assms(2) by (simp add: nth_append)
  then have t: "be16toh (?buf ! (unat (iter_ptr sf) + 32767)) \<noteq> 0" by (simp add: be16toh_def)
  from flux_scan [OF d a b z t, of 0 0] e assms(2)
  show ?thesis by (simp add: scp_next_flux_def be16toh_def)
qed

lemma wrap_stuck_forever:
  assumes "pll_accumulate p sf = Some r"
  shows "\<not> wrap_stuck p sf"
  using assms
proof (induct rule: pll_accumulate.raw_induct [rotated, consumes 1, case_names step])
  case (step f p sf r)
  show ?case
  proof
    assume s: "wrap_stuck p sf"
    then have lt: "flux p <s c_div (clock p) 2"
      by (auto simp: wrap_stuck_def c_div_def word_sless_alt)
    from s have r0: "pll_rev p = 0" and c: "clock p = 2000" and d: "dat sf = dat wrap_session"
      and ix: "index_ptr sf = index_ptr wrap_session" by (simp_all add: wrap_stuck_def)
    from s consider
      (due) "iter_limit sf \<le> iter_ptr sf" "flux p = 0 \<or> flux p = 0x80000000"
      | (behind) "iter_ptr sf = 1" "iter_limit sf = 32769" "flux p = 25 \<or> flux p = 0x80000019"
      by (auto simp: wrap_stuck_def)
    then show False
    proof cases
      case due
      let ?p1 = "p\<lparr>flux := flux p + 25 * 1\<rparr>"
      let ?s1 = "sf\<lparr>iter_limit := 32769, iter_ptr := 1\<rparr>"
      from step(2) lt r0 wrap_flux_first [OF d ix due(1)]
      have "f ?p1 ?s1 = Some r" by simp
      from step(1) [OF this] have "\<not> wrap_stuck ?p1 ?s1" .
      moreover from due(2) r0 c d ix have "wrap_stuck ?p1 ?s1"
        by (auto simp: wrap_stuck_def)
      ultimately show False by simp
    next
      case behind
      let ?p1 = "p\<lparr>flux := flux p + 25 * 0x7FFFFFFF\<rparr>"
      let ?s1 = "sf\<lparr>iter_ptr := 32769\<rparr>"
      from step(2) lt r0 wrap_flux_second [OF d behind(1,2)]
      have "f ?p1 ?s1 = Some r" by simp
      from step(1) [OF this] have "\<not> wrap_stuck ?p1 ?s1" .
      moreover from behind r0 c d ix have "wrap_stuck ?p1 ?s1"
        by (auto simp: wrap_stuck_def)
      ultimately show False by simp
    qed
  qed
qed

text \<open>
  The claim as stated fails on a slice with a long run of zero samples. The session has a
  non-empty slice with non-zero samples, and the first call of \<^verbatim>\<open>pll_next_bit\<close> on it
  never returns: the flux goes 0, 25, \<open>- 2 ^ 31\<close>, \<open>- 2 ^ 31 + 25\<close>, 0 and so on.
\<close>

theorem next_bit_terminates_counterexample:
  "slice_ok wrap_session 0 \<and> cursor_ok wrap_session 0 \<and> slice_has_flux wrap_session 0
   \<and> pll_next_bit (pll_init 0) wrap_session = None"
proof -
  have ok: "slice_ok wrap_session 0" by (rule wrap_session_ok(1)) simp_all
  have co: "cursor_ok wrap_session 0"
    by (simp add: cursor_ok_def wrap_session_def zero_session_def)
  have "(0, 1) \<in> set (slice wrap_session 0)"
    by (simp add: slice_def slice_start_def slice_end_def wrap_session_def zero_session_def)
  then have hf: "slice_has_flux wrap_session 0"
    unfolding slice_has_flux_def by (rule bexI [rotated]) (simp add: be16toh_def)
  have "wrap_stuck (pll_init 0) wrap_session"
    by (simp add: wrap_stuck_def pll_init_def CLOCK_CENTRE_def wrap_session_def zero_session_def)
  with wrap_stuck_forever have "pll_accumulate (pll_init 0) wrap_session = None"
    by (cases "pll_accumulate (pll_init 0) wrap_session") auto
  then have "pll_next_bit (pll_init 0) wrap_session = None" by (simp add: pll_next_bit_def)
  with ok co hf show ?thesis by simp
qed

lemma past_edge_session_fields:
  "dat past_edge_session = Some (replicate 1311 (0, 0) @ [(0, 1)])"
  "iter_limit past_edge_session \<le> iter_ptr past_edge_session"
  "index_ptr past_edge_session = [1312, 0, 0, 0, 0]"
  "next_ptr past_edge_session 0 = 0" "next_limit past_edge_session 0 = 1312"
  "slice past_edge_session 0 = replicate 1311 (0, 0) @ [(0, 1)]"
  by (simp_all add: past_edge_session_def zero_session_def next_ptr_def next_limit_def
      slice_def slice_start_def slice_end_def)

text \<open>
  The bound on the intervals is needed for the flux to rise. With one zero sample more than
  in the example above, the interval is 85917697 ticks, 25 times that is more than
  \<open>2 ^ 31\<close>, and the first round of the accumulation loop takes the flux from 0 to a
  negative number.
\<close>

lemma interval_bound_is_needed:
  "slice_ok past_edge_session 0 \<and> cursor_ok past_edge_session 0
   \<and> slice_has_flux past_edge_session 0
   \<and> slice_intervals past_edge_session 0 = [1311 * 0x10000 + 1]
   \<and> \<not> intervals_fit past_edge_session 0
   \<and> scp_next_flux past_edge_session 0 =
       Some (Inr (85917697, past_edge_session\<lparr>iter_limit := 1312, iter_ptr := 1312\<rparr>))
   \<and> flux (pll_init 0) = 0
   \<and> sint (flux (pll_init 0) + 25 * 85917697) = - 2147024871"
proof -
  let ?buf = "replicate 1311 (0, 0) @ [(0, 1)] :: sample list"
  have ok: "slice_ok past_edge_session 0" "cursor_ok past_edge_session 0"
    by (simp_all add: slice_ok_def cursor_ok_def slice_start_def slice_end_def
        past_edge_session_def zero_session_def)
  have hf: "slice_has_flux past_edge_session 0"
    by (simp add: slice_has_flux_def past_edge_session_fields be16toh_def)
  have i: "slice_intervals past_edge_session 0 = [1311 * 0x10000 + 1]"
    by (simp add: slice_intervals_def past_edge_session_fields flux_intervals_zeros be16toh_def)
  have nfit: "\<not> intervals_fit past_edge_session 0" by (simp add: intervals_fit_def i)
  have e: "?buf ! 1311 = (0, 1)" by (simp add: nth_append)
  have "scp_next_flux past_edge_session 0 =
      Some (Inr (of_nat 1311 * 0x10000 + ucast (1 :: u16),
                 past_edge_session\<lparr>iter_limit := next_limit past_edge_session 0,
                    iter_ptr := next_ptr past_edge_session 0 + of_nat 1311 + 1\<rparr>))"
  proof (rule next_flux_run [where buf = ?buf])
    show "dat past_edge_session = Some ?buf" by (rule past_edge_session_fields)
    show "iter_limit past_edge_session \<le> iter_ptr past_edge_session
            \<longrightarrow> unat (0 :: u32) < length (index_ptr past_edge_session)"
      by (simp add: past_edge_session_fields)
    show "unat (next_ptr past_edge_session 0) + 1311 < unat (next_limit past_edge_session 0)"
      by (simp add: past_edge_session_fields)
    show "unat (next_ptr past_edge_session 0) + 1311 < length ?buf"
      by (simp add: past_edge_session_fields)
    show "\<forall>i<1311. be16toh (?buf ! (unat (next_ptr past_edge_session 0) + i)) = 0"
      by (simp add: past_edge_session_fields nth_append be16toh_def)
    show "be16toh (?buf ! (unat (next_ptr past_edge_session 0) + 1311)) = 1"
      by (simp add: past_edge_session_fields e be16toh_def)
    show "(1 :: u16) \<noteq> 0" by simp
  qed
  then have nf: "scp_next_flux past_edge_session 0 =
       Some (Inr (85917697, past_edge_session\<lparr>iter_limit := 1312, iter_ptr := 1312\<rparr>))"
    by (simp add: past_edge_session_fields)
  have s: "sint (flux (pll_init 0) + 25 * 85917697) = - 2147024871"
    by (simp add: pll_init_def)
  from ok hf i nfit nf s show ?thesis by (simp add: pll_init_def)
qed

section \<open>Length of a decoded track\<close>

lemma sint_succ:
  fixes n :: s32
  assumes "sint n < 2 ^ 31 - 1"
  shows "sint (n + 1) = sint n + 1"
proof -
  have lo: "- (2 ^ 31) \<le> sint n" using sint_ge [of n] by simp
  have "sint (n + 1) = signed_take_bit 31 (sint n + 1)" by (simp add: sint_word_ariths)
  also have "\<dots> = sint n + 1" using lo assms by (intro signed_take_bit_int_eq_self) simp_all
  finally show ?thesis .
qed

lemma sint_of_nat_s32:
  assumes "m < 2 ^ 31"
  shows "sint (of_nat m :: s32) = int m"
proof -
  have "(of_nat m :: s32) = word_of_int (int m)" by simp
  moreover have "sint (word_of_int (int m) :: s32) = int m"
    using assms by (intro sint_of_int_s32) simp_all
  ultimately show ?thesis by simp
qed

lemma fill_length:
  "length (halfbits (scp_fill w n)) = length (halfbits w) + nat (12800 * 8 - sint n)"
proof (induction w n rule: scp_fill.induct)
  case (1 w n)
  show ?case
  proof (cases "n <s 12800 * 8")
    case False
    then have "scp_fill w n = w" by (subst scp_fill.simps) simp
    moreover from False have "102400 \<le> sint n" by (simp add: word_sless_alt)
    ultimately show ?thesis by simp
  next
    case True
    then have hi: "sint n < 102400" by (simp add: word_sless_alt)
    then have s1: "sint (n + 1) = sint n + 1" by (intro sint_succ) simp
    with hi have s2: "sint (n + 1 + 1) = sint n + 2" using sint_succ [of "n + 1"] by simp
    let ?w1 = "mfm_write_halfbit w (c_not (last_bit w))"
    show ?thesis
    proof (cases "n + 1 <s 12800 * 8")
      case True
      from "1.IH"(1) [OF \<open>n <s 12800 * 8\<close> refl True]
      have "length (halfbits (scp_fill (mfm_write_halfbit ?w1 (c_not (last_bit ?w1))) (n + 1 + 1)))
            = length (halfbits (mfm_write_halfbit ?w1 (c_not (last_bit ?w1)))) + nat (12800 * 8 - sint (n + 1 + 1))" .
      moreover from True s1 have "sint n + 1 < 102400" by (simp add: word_sless_alt)
      ultimately show ?thesis
        using \<open>n <s 12800 * 8\<close> True s2 hi
        by (subst scp_fill.simps) (simp add: mfm_write_halfbit_def Let_def)
    next
      case False
      from "1.IH"(2) [OF \<open>n <s 12800 * 8\<close> refl False]
      have "length (halfbits (scp_fill ?w1 (n + 1 + 1)))
            = length (halfbits ?w1) + nat (12800 * 8 - sint (n + 1 + 1))" .
      moreover from False s1 have "102400 \<le> sint n + 1" by (simp add: word_sless_alt)
      ultimately show ?thesis
        using \<open>n <s 12800 * 8\<close> False s2 hi
        by (subst scp_fill.simps) (simp add: mfm_write_halfbit_def Let_def)
    qed
  qed
qed

lemma decode_loop_count:
  assumes "scp_decode_loop p sf w n = Some r"
  shows "case r of Inl e \<Rightarrow> True
         | Inr (n', w', p', sf') \<Rightarrow>
             (\<exists>m. 1 \<le> m \<and> length (halfbits w') = length (halfbits w) + m \<and> n' = n + of_nat m)"
  using assms
proof (induct rule: scp_decode_loop.raw_induct [rotated, consumes 1, case_names step])
  case (step f p sf w n r)
  show ?case
  proof (cases "pll_next_bit p sf")
    case None
    with step(2) show ?thesis by simp
  next
    case (Some a)
    show ?thesis
    proof (cases a)
      case (Inl e)
      with Some step(2) have "r = Inl e" by simp
      then show ?thesis by simp
    next
      case (Inr b)
      obtain halfbit p1 sf1 where b: "b = (halfbit, p1, sf1)" by (cases b)
      show ?thesis
      proof (cases "iter_ptr sf1 < iter_limit sf1")
        case False
        with Some Inr b step(2) have "r = Inr (n + 1, mfm_write_halfbit w halfbit, p1, sf1)" by simp
        then show ?thesis
          by (auto simp: mfm_write_halfbit_def intro!: exI [of _ 1])
      next
        case True
        with Some Inr b step(2)
        have "f p1 sf1 (mfm_write_halfbit w halfbit) (n + 1) = Some r" by simp
        from step(1) [OF this] show ?thesis
        proof (cases r)
          case (Inl e)
          then show ?thesis by simp
        next
          case (Inr c)
          obtain n' w' p' sf' where c: "c = (n', w', p', sf')" by (cases c)
          with Inr \<open>case r of Inl e \<Rightarrow> True | Inr (n', w', p', sf') \<Rightarrow> _\<close>
          obtain m where m: "1 \<le> m"
            "length (halfbits w') = length (halfbits (mfm_write_halfbit w halfbit)) + m"
            "n' = n + 1 + of_nat m" by auto
          then have "1 \<le> Suc m \<and> length (halfbits w') = length (halfbits w) + Suc m
                      \<and> n' = n + of_nat (Suc m)"
            by (simp add: mfm_write_halfbit_def)
          then have "\<exists>m'. 1 \<le> m' \<and> length (halfbits w') = length (halfbits w) + m'
                      \<and> n' = n + of_nat m'" by blast
          then show ?thesis using Inr c by simp
        qed
      qed
    qed
  qed
qed

lemma sint_minus_clock:
  fixes a :: s32
  assumes "3000 \<le> sint a"
  shows "sint (a - 2000) = sint a - 2000"
proof -
  have hi: "sint a < 2 ^ 31" using sint_lt [of a] by simp
  have "sint (a - 2000) = signed_take_bit 31 (sint a - 2000)" by (simp add: sint_word_ariths)
  also have "\<dots> = sint a - 2000" using hi assms by (intro signed_take_bit_int_eq_self) simp_all
  finally show ?thesis .
qed

lemma next_bit_zero:
  assumes "clock p = 2000" and "3000 \<le> sint (flux p)"
  shows "pll_next_bit p sf =
           Some (Inr (0, p\<lparr>time := time p + 2000, flux := flux p - 2000,
                          clocked_zeros := clocked_zeros p + 1\<rparr>, sf))"
proof -
  from assms have "\<not> flux p <s c_div (clock p) 2" by (simp add: c_div_def word_sless_alt)
  then have acc: "pll_accumulate p sf = Some (Inr (p, sf))"
    by (subst pll_accumulate.simps) simp
  from sint_minus_clock [OF assms(2)] assms(2) have "1000 \<le> sint (flux p - 2000)" by simp
  then have "pll_clock_bit p = (0, p\<lparr>time := time p + 2000, flux := flux p - 2000,
                          clocked_zeros := clocked_zeros p + 1\<rparr>)"
    using assms(1) by (simp add: pll_clock_bit_eq spec_classify_def c_div_def word_sle_eq Let_def)
  with acc show ?thesis by (simp add: pll_next_bit_def)
qed

lemma decode_loop_zero_bits:
  assumes "clock p = 2000" and "1000 + 2000 * int m \<le> sint (flux p)"
    and "iter_ptr sf < iter_limit sf"
  shows "scp_decode_loop p sf w n =
           scp_decode_loop
             (p\<lparr>time := time p + 2000 * of_nat m, flux := flux p - 2000 * of_nat m,
                clocked_zeros := clocked_zeros p + of_nat m\<rparr>) sf
             (w\<lparr>halfbits := halfbits w @ replicate m 0,
                last_bit := (if m = 0 then last_bit w else 0)\<rparr>) (n + of_nat m)"
  using assms(1,2)
proof (induction m arbitrary: p w n)
  case 0
  then show ?case by simp
next
  case (Suc m)
  let ?p1 = "p\<lparr>time := time p + 2000, flux := flux p - 2000, clocked_zeros := clocked_zeros p + 1\<rparr>"
  let ?w1 = "mfm_write_halfbit w 0"
  from Suc.prems(2) have f: "3000 \<le> sint (flux p)" by simp
  have bit: "pll_next_bit p sf = Some (Inr (0, ?p1, sf))" by (rule next_bit_zero [OF Suc.prems(1) f])
  have one: "scp_decode_loop p sf w n = scp_decode_loop ?p1 sf ?w1 (n + 1)"
    by (subst scp_decode_loop.simps) (simp add: bit assms(3))
  have c1: "clock ?p1 = 2000" using Suc.prems(1) by simp
  from sint_minus_clock [OF f] Suc.prems(2) have f1: "1000 + 2000 * int m \<le> sint (flux ?p1)" by simp
  have pe: "?p1\<lparr>time := time ?p1 + 2000 * of_nat m, flux := flux ?p1 - 2000 * of_nat m,
                clocked_zeros := clocked_zeros ?p1 + of_nat m\<rparr> =
            p\<lparr>time := time p + 2000 * of_nat (Suc m), flux := flux p - 2000 * of_nat (Suc m),
                clocked_zeros := clocked_zeros p + of_nat (Suc m)\<rparr>"
    by (simp add: algebra_simps)
  have we: "?w1\<lparr>halfbits := halfbits ?w1 @ replicate m 0,
                last_bit := (if m = 0 then last_bit ?w1 else 0)\<rparr> =
            w\<lparr>halfbits := halfbits w @ replicate (Suc m) 0,
                last_bit := (if Suc m = 0 then last_bit w else 0)\<rparr>"
    by (simp add: mfm_write_halfbit_def replicate_app_Cons_same)
  have ne: "n + 1 + of_nat m = n + of_nat (Suc m)" by simp
  have "scp_decode_loop ?p1 sf ?w1 (n + 1) =
      scp_decode_loop
             (?p1\<lparr>time := time ?p1 + 2000 * of_nat m, flux := flux ?p1 - 2000 * of_nat m,
                clocked_zeros := clocked_zeros ?p1 + of_nat m\<rparr>) sf
             (?w1\<lparr>halfbits := halfbits ?w1 @ replicate m 0,
                last_bit := (if m = 0 then last_bit ?w1 else 0)\<rparr>) (n + 1 + of_nat m)"
    by (rule Suc.IH [OF c1 f1])
  then have "scp_decode_loop ?p1 sf ?w1 (n + 1) =
      scp_decode_loop
            (p\<lparr>time := time p + 2000 * of_nat (Suc m), flux := flux p - 2000 * of_nat (Suc m),
                clocked_zeros := clocked_zeros p + of_nat (Suc m)\<rparr>) sf
            (w\<lparr>halfbits := halfbits w @ replicate (Suc m) 0,
                last_bit := (if Suc m = 0 then last_bit w else 0)\<rparr>) (n + of_nat (Suc m))"
    by (simp only: pe we ne)
  with one show ?case by (rule trans)
qed

text \<open>
  What the fill loop makes of a decoded track. Take a track in range whose selection
  succeeds, and let the first call of \<^verbatim>\<open>pll_next_bit\<close>, whose bit is ignored, and the
  natural decode loop return. Then the body of the track loop returns the sink as
  \<open>scp_fill\<close> leaves it. The natural loop has emitted at least one half-bit. When it
  has emitted at most 12800 * 8 half-bits, the track comes to exactly 12800 * 8. When it
  has emitted more (and fewer than \<open>2 ^ 31\<close>, the range of the counter), nothing is
  added and nothing is cut: the track comes to the natural length.
\<close>

lemma decode_track_fill:
  assumes "\<not> (tn <s ucast (start_track (header sf)) \<or> ucast (end_track (header sf)) \<le>s tn)"
    and "scp_select_track heap sf tn = Inr (r, sf0)" and "\<not> r <s 0"
    and "pll_next_bit (pll_init rev_nr) (scp_reset sf0) = Some (Inr (b0, p1, sf1))"
    and "scp_decode_loop p1 sf1 (mfm_write_reset writer) 0 = Some (Inr (n, w1, p2, sf2))"
  shows "scp_write_track heap sf writer rev_nr tn = Some (Inr (scp_fill w1 n, sf2))
         \<and> 1 \<le> length (halfbits w1)
         \<and> (length (halfbits w1) \<le> 12800 * 8 \<longrightarrow>
               length (halfbits (scp_fill w1 n)) = 12800 * 8)
         \<and> (12800 * 8 < length (halfbits w1) \<and> length (halfbits w1) < 2 ^ 31 \<longrightarrow>
               length (halfbits (scp_fill w1 n)) = length (halfbits w1))"
proof -
  have run: "scp_write_track heap sf writer rev_nr tn = Some (Inr (scp_fill w1 n, sf2))"
    using assms by (simp add: scp_write_track_def scp_decode_track_def Let_def)
  from decode_loop_count [OF assms(5)] obtain m where m: "1 \<le> m"
    and len: "length (halfbits w1) = length (halfbits (mfm_write_reset writer)) + m"
    and n: "n = 0 + of_nat m" by auto
  from len have l: "length (halfbits w1) = m" by (simp add: mfm_write_reset_def)
  have small: "length (halfbits (scp_fill w1 n)) = 12800 * 8" if "m \<le> 12800 * 8"
  proof -
    from that have "m < 2 ^ 31" by simp
    then have "sint n = int m" using n by (simp add: sint_of_nat_s32)
    with that l show ?thesis by (simp add: fill_length)
  qed
  have large: "length (halfbits (scp_fill w1 n)) = m" if "12800 * 8 < m" "m < 2 ^ 31"
  proof -
    from that(2) have "sint n = int m" using n by (simp add: sint_of_nat_s32)
    with that l show ?thesis by (simp add: fill_length)
  qed
  from run m l small large show ?thesis by simp
qed

lemma short_session_select:
  "\<not> ((0 :: s32) <s ucast (start_track (header short_session))
       \<or> ucast (end_track (header short_session)) \<le>s (0 :: s32))"
  "scp_select_track heap short_session 0 = Inr (0, short_session)"
  by (simp_all add: scp_select_track_def short_session_def zero_session_def word_sle_eq)

lemma short_session_first:
  "pll_next_bit (pll_init 0) (scp_reset short_session) =
     Some (Inr (0, \<lparr>pll_rev = 0, clock = 2000, flux = 1636425, time = 2000, clocked_zeros = 1\<rparr>,
                short_session\<lparr>iter_ptr := 2, iter_limit := 2\<rparr>))"
proof -
  let ?r = "scp_reset short_session"
  let ?buf = "[(0, 0), (0, 1)] :: sample list"
  have ok: "slice_ok ?r 0" and se: "slice_start ?r 0 = 0" "slice_end ?r 0 = 2"
    by (simp_all add: slice_ok_def slice_start_def slice_end_def short_session_def
        zero_session_def scp_reset_def)
  have p: "iter_limit ?r \<le> iter_ptr ?r" by (simp add: scp_reset_def)
  let ?s = "?r\<lparr>iter_limit := 2, iter_ptr := 0\<rparr>"
  have "scp_flux_loop ?s 0 0 =
      Some (Inr (0 + of_nat 1 * 0x10000 + ucast (be16toh (?buf ! (unat (iter_ptr ?s) + 1))),
                 ?s\<lparr>iter_ptr := iter_ptr ?s + of_nat 1 + 1\<rparr>))"
    by (rule flux_scan [where buf = ?buf])
       (simp_all add: short_session_def zero_session_def scp_reset_def be16toh_def)
  then have nf: "scp_next_flux ?r 0 = Some (Inr (65537, short_session\<lparr>iter_ptr := 2, iter_limit := 2\<rparr>))"
    using next_flux_restart [OF p ok] se
    by (simp add: scp_next_flux_def scp_reset_def be16toh_def)
  let ?p1 = "(pll_init 0)\<lparr>flux := 1638425\<rparr>"
  let ?s1 = "short_session\<lparr>iter_ptr := 2, iter_limit := 2\<rparr>"
  have "pll_accumulate (pll_init 0) ?r = pll_accumulate ?p1 ?s1"
    by (subst pll_accumulate.simps)
       (simp add: nf pll_init_def CLOCK_CENTRE_def c_div_def word_sless_alt)
  also have "\<dots> = Some (Inr (?p1, ?s1))"
    by (subst pll_accumulate.simps)
       (simp add: pll_init_def CLOCK_CENTRE_def c_div_def word_sless_alt)
  finally have acc: "pll_accumulate (pll_init 0) ?r = Some (Inr (?p1, ?s1))" .
  have "pll_clock_bit ?p1 =
      (0, \<lparr>pll_rev = 0, clock = 2000, flux = 1636425, time = 2000, clocked_zeros = 1\<rparr>)"
    by (simp add: pll_clock_bit_eq spec_classify_def pll_init_def CLOCK_CENTRE_def
        c_div_def word_sle_eq Let_def)
  with acc show ?thesis by (simp add: pll_next_bit_def)
qed

lemma short_session_loop:
  "scp_decode_loop \<lparr>pll_rev = 0, clock = 2000, flux = 1636425, time = 2000, clocked_zeros = 1\<rparr>
       (short_session\<lparr>iter_ptr := 2, iter_limit := 2\<rparr>) (mfm_write_reset blank_writer) 0 =
     Some (Inr (1, \<lparr>halfbits = [0], filler = [], last_bit = 0\<rparr>,
                \<lparr>pll_rev = 0, clock = 2000, flux = 1634425, time = 4000, clocked_zeros = 2\<rparr>,
                short_session\<lparr>iter_ptr := 2, iter_limit := 2\<rparr>))"
  by (subst scp_decode_loop.simps)
     (simp add: next_bit_zero mfm_write_halfbit_def mfm_write_reset_def)

text \<open>A track whose natural loop produces one half-bit: the rest is filled.\<close>

lemma short_session_track:
  "scp_write_track (\<lambda>n. True) short_session blank_writer 0 0 =
     Some (Inr (scp_fill \<lparr>halfbits = [0], filler = [], last_bit = 0\<rparr> 1,
                short_session\<lparr>iter_ptr := 2, iter_limit := 2\<rparr>))
   \<and> length (halfbits (scp_fill \<lparr>halfbits = [0], filler = [], last_bit = 0\<rparr> 1)) = 12800 * 8"
  using decode_track_fill [OF short_session_select(1) short_session_select(2) _
      short_session_first short_session_loop, of "\<lambda>n. True"]
  by simp

lemma long_session_select:
  "\<not> ((0 :: s32) <s ucast (start_track (header long_session))
       \<or> ucast (end_track (header long_session)) \<le>s (0 :: s32))"
  "scp_select_track heap long_session 0 = Inr (0, long_session)"
  by (simp_all add: scp_select_track_def long_session_def zero_session_def word_sle_eq)

lemma long_session_first:
  "pll_next_bit (pll_init 0) (scp_reset long_session) =
     Some (Inr (0, \<lparr>pll_rev = 0, clock = 2000, flux = 226097225, time = 2000, clocked_zeros = 1\<rparr>,
                long_session\<lparr>iter_ptr := 139, iter_limit := 140\<rparr>))"
proof -
  let ?r = "scp_reset long_session"
  let ?buf = "replicate 138 (0, 0) @ [(0, 1), (0, 80)] :: sample list"
  have ok: "slice_ok ?r 0" and se: "slice_start ?r 0 = 0" "slice_end ?r 0 = 140"
    by (simp_all add: slice_ok_def slice_start_def slice_end_def long_session_def
        zero_session_def scp_reset_def)
  have p: "iter_limit ?r \<le> iter_ptr ?r" by (simp add: scp_reset_def)
  let ?s = "?r\<lparr>iter_limit := 140, iter_ptr := 0\<rparr>"
  have d: "dat ?s = Some ?buf" by (simp add: long_session_def zero_session_def scp_reset_def)
  have e: "?buf ! (unat (iter_ptr ?s) + 138) = (0, 1)" by (simp add: nth_append)
  have "scp_flux_loop ?s 0 0 =
      Some (Inr (0 + of_nat 138 * 0x10000 + ucast (be16toh (?buf ! (unat (iter_ptr ?s) + 138))),
                 ?s\<lparr>iter_ptr := iter_ptr ?s + of_nat 138 + 1\<rparr>))"
  proof (rule flux_scan [OF d])
    show "unat (iter_ptr ?s) + 138 < unat (iter_limit ?s)" by simp
    show "unat (iter_ptr ?s) + 138 < length ?buf" by simp
    show "\<forall>i<138. be16toh (?buf ! (unat (iter_ptr ?s) + i)) = 0"
      by (simp add: nth_append be16toh_def)
    show "be16toh (?buf ! (unat (iter_ptr ?s) + 138)) \<noteq> 0"
      by (simp only: e) (simp add: be16toh_def)
  qed
  then have nf: "scp_next_flux ?r 0 =
      Some (Inr (9043969, long_session\<lparr>iter_ptr := 139, iter_limit := 140\<rparr>))"
    using next_flux_restart [OF p ok] se e
    by (simp add: scp_next_flux_def scp_reset_def be16toh_def)
  let ?p1 = "(pll_init 0)\<lparr>flux := 226099225\<rparr>"
  let ?s1 = "long_session\<lparr>iter_ptr := 139, iter_limit := 140\<rparr>"
  have "pll_accumulate (pll_init 0) ?r = pll_accumulate ?p1 ?s1"
    by (subst pll_accumulate.simps)
       (simp add: nf pll_init_def CLOCK_CENTRE_def c_div_def word_sless_alt)
  also have "\<dots> = Some (Inr (?p1, ?s1))"
    by (subst pll_accumulate.simps)
       (simp add: pll_init_def CLOCK_CENTRE_def c_div_def word_sless_alt)
  finally have acc: "pll_accumulate (pll_init 0) ?r = Some (Inr (?p1, ?s1))" .
  have "pll_clock_bit ?p1 =
      (0, \<lparr>pll_rev = 0, clock = 2000, flux = 226097225, time = 2000, clocked_zeros = 1\<rparr>)"
    by (simp add: pll_clock_bit_eq spec_classify_def pll_init_def CLOCK_CENTRE_def
        c_div_def word_sle_eq Let_def)
  with acc show ?thesis by (simp add: pll_next_bit_def)
qed

lemma long_session_zero_bits:
  "scp_decode_loop \<lparr>pll_rev = 0, clock = 2000, flux = 226097225, time = 2000, clocked_zeros = 1\<rparr>
       (long_session\<lparr>iter_ptr := 139, iter_limit := 140\<rparr>) (mfm_write_reset blank_writer) 0 =
   scp_decode_loop \<lparr>pll_rev = 0, clock = 2000, flux = 1225, time = 226098000, clocked_zeros = 113049\<rparr>
       (long_session\<lparr>iter_ptr := 139, iter_limit := 140\<rparr>)
       \<lparr>halfbits = replicate 113048 0, filler = [], last_bit = 0\<rparr> 113048"
  using decode_loop_zero_bits [of
      "\<lparr>pll_rev = 0, clock = 2000, flux = 226097225, time = 2000, clocked_zeros = 1\<rparr>" 113048
      "long_session\<lparr>iter_ptr := 139, iter_limit := 140\<rparr>" "mfm_write_reset blank_writer" 0]
  by (simp add: mfm_write_reset_def)

lemma long_session_one_bit:
  "pll_next_bit \<lparr>pll_rev = 0, clock = 2000, flux = 1225, time = 226098000, clocked_zeros = 113049\<rparr>
       (long_session\<lparr>iter_ptr := 139, iter_limit := 140\<rparr>) =
     Some (Inr (1, \<lparr>pll_rev = 0, clock = 2000, flux = - 310, time = 226099535, clocked_zeros = 0\<rparr>,
                long_session\<lparr>iter_ptr := 139, iter_limit := 140\<rparr>))"
proof -
  let ?p = "\<lparr>pll_rev = 0, clock = 2000, flux = 1225, time = 226098000, clocked_zeros = 113049\<rparr>"
  let ?s = "long_session\<lparr>iter_ptr := 139, iter_limit := 140\<rparr>"
  have acc: "pll_accumulate ?p ?s = Some (Inr (?p, ?s))"
    by (subst pll_accumulate.simps) (simp add: c_div_def word_sless_alt)
  have "pll_clock_bit ?p =
      (1, \<lparr>pll_rev = 0, clock = 2000, flux = - 310, time = 226099535, clocked_zeros = 0\<rparr>)"
    by (simp add: pll_clock_bit_eq spec_classify_def spec_clamp_def
        c_div_def word_sless_alt word_sle_eq Let_def)
  with acc show ?thesis by (simp add: pll_next_bit_def)
qed

lemma long_session_last_bit:
  "pll_next_bit \<lparr>pll_rev = 0, clock = 2000, flux = - 310, time = 226099535, clocked_zeros = 0\<rparr>
       (long_session\<lparr>iter_ptr := 139, iter_limit := 140\<rparr>) =
     Some (Inr (1, \<lparr>pll_rev = 0, clock = 1985, flux = - 124, time = 226101349, clocked_zeros = 0\<rparr>,
                long_session\<lparr>iter_ptr := 140, iter_limit := 140\<rparr>))"
proof -
  let ?p = "\<lparr>pll_rev = 0, clock = 2000, flux = - 310, time = 226099535, clocked_zeros = 0\<rparr>"
  let ?s = "long_session\<lparr>iter_ptr := 139, iter_limit := 140\<rparr>"
  let ?buf = "replicate 138 (0, 0) @ [(0, 1), (0, 80)] :: sample list"
  let ?p1 = "?p\<lparr>flux := 1690\<rparr>"
  let ?s1 = "long_session\<lparr>iter_ptr := 140, iter_limit := 140\<rparr>"
  have e: "?buf ! 139 = (0, 80)" by (simp add: nth_append)
  have "scp_next_flux ?s 0 = Some (Inr (ucast (80 :: u16), ?s\<lparr>iter_ptr := iter_ptr ?s + 1\<rparr>))"
    by (rule next_flux_inside [where buf = ?buf])
       (simp_all add: long_session_def zero_session_def be16toh_def e)
  then have nf: "scp_next_flux ?s 0 = Some (Inr (80, ?s1))" by simp
  have "pll_accumulate ?p ?s = pll_accumulate ?p1 ?s1"
    by (subst pll_accumulate.simps) (simp add: nf c_div_def word_sless_alt)
  also have "\<dots> = Some (Inr (?p1, ?s1))"
    by (subst pll_accumulate.simps) (simp add: c_div_def word_sless_alt)
  finally have acc: "pll_accumulate ?p ?s = Some (Inr (?p1, ?s1))" .
  have "pll_clock_bit ?p1 =
      (1, \<lparr>pll_rev = 0, clock = 1985, flux = - 124, time = 226101349, clocked_zeros = 0\<rparr>)"
    by (simp add: pll_clock_bit_eq spec_classify_def spec_clamp_def
        c_div_def word_sless_alt word_sle_eq Let_def)
  with acc show ?thesis by (simp add: pll_next_bit_def)
qed

lemma long_session_loop:
  "scp_decode_loop \<lparr>pll_rev = 0, clock = 2000, flux = 226097225, time = 2000, clocked_zeros = 1\<rparr>
       (long_session\<lparr>iter_ptr := 139, iter_limit := 140\<rparr>) (mfm_write_reset blank_writer) 0 =
     Some (Inr (113050, \<lparr>halfbits = replicate 113048 0 @ [1, 1], filler = [], last_bit = 1\<rparr>,
                \<lparr>pll_rev = 0, clock = 1985, flux = - 124, time = 226101349, clocked_zeros = 0\<rparr>,
                long_session\<lparr>iter_ptr := 140, iter_limit := 140\<rparr>))"
proof -
  let ?s = "long_session\<lparr>iter_ptr := 139, iter_limit := 140\<rparr>"
  let ?pB = "\<lparr>pll_rev = 0, clock = 2000, flux = 1225, time = 226098000, clocked_zeros = 113049\<rparr>"
  let ?pC = "\<lparr>pll_rev = 0, clock = 2000, flux = - 310, time = 226099535, clocked_zeros = 0\<rparr>"
  let ?wB = "\<lparr>halfbits = replicate 113048 0, filler = [], last_bit = 0\<rparr> :: mfm_writer"
  let ?wC = "\<lparr>halfbits = replicate 113048 0 @ [1], filler = [], last_bit = 1\<rparr> :: mfm_writer"
  have "scp_decode_loop ?pB ?s ?wB 113048 = scp_decode_loop ?pC ?s ?wC 113049"
    by (subst scp_decode_loop.simps)
       (simp add: long_session_one_bit mfm_write_halfbit_def)
  also have "\<dots> = Some (Inr (113050, \<lparr>halfbits = replicate 113048 0 @ [1, 1], filler = [], last_bit = 1\<rparr>,
                \<lparr>pll_rev = 0, clock = 1985, flux = - 124, time = 226101349, clocked_zeros = 0\<rparr>,
                long_session\<lparr>iter_ptr := 140, iter_limit := 140\<rparr>))"
    by (subst scp_decode_loop.simps)
       (simp add: long_session_last_bit mfm_write_halfbit_def)
  finally show ?thesis by (simp only: long_session_zero_bits)
qed

text \<open>
  Claim C2 fails in the code. The filler branch emits 6400 bytes and the fill loop pads up
  to 12800 * 8 half-bits: the capacity of a track is 12800 * 8 half-bit cells. But the
  natural decode loop counts its half-bits without a bound, and the fill loop can only
  add. On this track, in range and selected with success, the PLL clocks more than 113000
  zero cells out of one long interval while the cursor is still before the last sample:
  the call returns with 113050 half-bits emitted to the sink.
\<close>

theorem overlong_track_is_not_cut:
  "start_track (header long_session) = 0 \<and> end_track (header long_session) = 1
   \<and> scp_select_track (\<lambda>n. True) long_session 0 = Inr (0, long_session)
   \<and> scp_write_track (\<lambda>n. True) long_session blank_writer 0 0 =
       Some (Inr (\<lparr>halfbits = replicate 113048 0 @ [1, 1], filler = [], last_bit = 1\<rparr>,
                  long_session\<lparr>iter_ptr := 140, iter_limit := 140\<rparr>))
   \<and> length (replicate 113048 (0 :: s32) @ [1, 1]) = 113050
   \<and> (113050 :: nat) \<noteq> 12800 * 8"
proof -
  have hdr: "start_track (header long_session) = 0" "end_track (header long_session) = 1"
    by (simp_all add: long_session_def zero_session_def)
  have "scp_fill \<lparr>halfbits = replicate 113048 0 @ [1, 1], filler = [], last_bit = 1\<rparr> 113050
        = \<lparr>halfbits = replicate 113048 0 @ [1, 1], filler = [], last_bit = 1\<rparr>"
    by (subst scp_fill.simps) simp
  then have "scp_write_track (\<lambda>n. True) long_session blank_writer 0 0 =
       Some (Inr (\<lparr>halfbits = replicate 113048 0 @ [1, 1], filler = [], last_bit = 1\<rparr>,
                  long_session\<lparr>iter_ptr := 140, iter_limit := 140\<rparr>))"
    using long_session_select(1) long_session_select(2) [of "\<lambda>n. True"] long_session_first long_session_loop
    by (simp add: scp_write_track_def scp_decode_track_def Let_def)
  with hdr long_session_select(2) [of "\<lambda>n. True"] show ?thesis by simp
qed

lemma tick_flux_second:
  assumes "dat sf = dat tick_session" and "iter_ptr sf = 1" and "iter_limit sf = 2"
  shows "scp_next_flux sf 0 = Some (Inr (1, sf\<lparr>iter_ptr := 2\<rparr>))"
proof -
  have "scp_next_flux sf 0 = Some (Inr (ucast (1 :: u16), sf\<lparr>iter_ptr := iter_ptr sf + 1\<rparr>))"
    by (rule next_flux_inside [where buf = "[(0, 79), (0, 1)]"])
       (simp_all add: assms tick_session_def zero_session_def be16toh_def)
  with assms(2) show ?thesis by simp
qed

lemma tick_flux_first:
  assumes "dat sf = dat tick_session" and "index_ptr sf = index_ptr tick_session"
    and "iter_limit sf \<le> iter_ptr sf"
  shows "scp_next_flux sf 0 = Some (Inr (79, sf\<lparr>iter_limit := 2, iter_ptr := 1\<rparr>))"
proof -
  have ok: "slice_ok sf 0" and se: "slice_start sf 0 = 0" "slice_end sf 0 = 2"
    using assms(1,2)
    by (simp_all add: slice_ok_def slice_start_def slice_end_def tick_session_def zero_session_def)
  let ?s = "sf\<lparr>iter_limit := 2, iter_ptr := 0\<rparr>"
  have "scp_next_flux ?s 0 = Some (Inr (ucast (79 :: u16), ?s\<lparr>iter_ptr := iter_ptr ?s + 1\<rparr>))"
    by (rule next_flux_inside [where buf = "[(0, 79), (0, 1)]"])
       (simp_all add: assms(1) tick_session_def zero_session_def be16toh_def)
  then show ?thesis using next_flux_restart [OF assms(3) ok] se by simp
qed

lemma tick_accumulate:
  assumes "tick_stuck p sf"
  shows "pll_accumulate p sf =
           Some (Inr (p\<lparr>flux := flux p + 2000\<rparr>, sf\<lparr>iter_limit := 2, iter_ptr := 1\<rparr>))"
proof -
  from assms have r: "pll_rev p = 0" and c: "clock p = 1999"
    and f: "flux p = - 10 \<or> flux p = - 3 \<or> flux p = 0"
    and d: "dat sf = dat tick_session" and ix: "index_ptr sf = index_ptr tick_session"
    and ip: "iter_ptr sf = 1" and il: "iter_limit sf = 2" by (simp_all add: tick_stuck_def)
  let ?p1 = "p\<lparr>flux := flux p + 25 * 1\<rparr>" and ?s1 = "sf\<lparr>iter_ptr := 2\<rparr>"
  let ?p2 = "?p1\<lparr>flux := flux ?p1 + 25 * 79\<rparr>" and ?s2 = "?s1\<lparr>iter_limit := 2, iter_ptr := 1\<rparr>"
  from f c have lt: "flux p <s c_div (clock p) 2" by (auto simp: c_div_def word_sless_alt)
  from f c have lt1: "flux ?p1 <s c_div (clock ?p1) 2" by (auto simp: c_div_def word_sless_alt)
  from f c have ge: "\<not> flux ?p2 <s c_div (clock ?p2) 2" by (auto simp: c_div_def word_sless_alt)
  have n1: "scp_next_flux sf (pll_rev p) = Some (Inr (1, ?s1))"
    using tick_flux_second [OF d ip il] r by simp
  have n2: "scp_next_flux ?s1 (pll_rev ?p1) = Some (Inr (79, ?s2))"
    using tick_flux_first [of ?s1] d ix il r by simp
  have "pll_accumulate p sf = pll_accumulate ?p1 ?s1"
    by (subst pll_accumulate.simps) (simp add: lt n1)
  also have "\<dots> = pll_accumulate ?p2 ?s2"
    by (subst pll_accumulate.simps) (simp only: lt1 if_True n2 option.case sum.case prod.case)
  also have "\<dots> = Some (Inr (?p2, ?s2))"
    by (subst pll_accumulate.simps) (simp only: ge if_False)
  finally show ?thesis by simp
qed

lemma tick_bit:
  assumes "tick_stuck p sf"
  shows "\<exists>p' sf'. pll_next_bit p sf = Some (Inr (1, p', sf')) \<and> tick_stuck p' sf'
           \<and> iter_ptr sf' < iter_limit sf'"
proof -
  from assms have r: "pll_rev p = 0" and c: "clock p = 1999" and z: "clocked_zeros p = 0"
    and f: "flux p = - 10 \<or> flux p = - 3 \<or> flux p = 0"
    and d: "dat sf = dat tick_session" and ix: "index_ptr sf = index_ptr tick_session"
    by (simp_all add: tick_stuck_def)
  let ?p2 = "p\<lparr>flux := flux p + 2000\<rparr>" and ?s2 = "sf\<lparr>iter_limit := 2, iter_ptr := 1\<rparr>"
  let ?b = "pll_clock_bit ?p2"
  from f c z have b: "fst ?b = 1 \<and> clock (snd ?b) = 1999 \<and> clocked_zeros (snd ?b) = 0
      \<and> (flux (snd ?b) = - 3 \<or> flux (snd ?b) = 0) \<and> pll_rev (snd ?b) = pll_rev p"
    by (auto simp: pll_clock_bit_eq spec_classify_def spec_clamp_def c_div_def word_sless_alt
        word_sle_eq Let_def)
  from tick_accumulate [OF assms]
  have "pll_next_bit p sf = Some (Inr (fst ?b, snd ?b, ?s2))"
    by (simp add: pll_next_bit_def split: prod.splits)
  moreover from b r d ix have "tick_stuck (snd ?b) ?s2" by (auto simp: tick_stuck_def)
  moreover have "iter_ptr ?s2 < iter_limit ?s2" by simp
  ultimately show ?thesis using b by auto
qed

lemma tick_stuck_forever:
  assumes "scp_decode_loop p sf w n = Some r"
  shows "\<not> tick_stuck p sf"
  using assms
proof (induct rule: scp_decode_loop.raw_induct [rotated, consumes 1, case_names step])
  case (step g p sf w n r)
  show ?case
  proof
    assume "tick_stuck p sf"
    from tick_bit [OF this] obtain p' sf' where
      b: "pll_next_bit p sf = Some (Inr (1, p', sf'))" and s: "tick_stuck p' sf'"
      and lt: "iter_ptr sf' < iter_limit sf'" by blast
    from step(2) b lt have "g p' sf' (mfm_write_halfbit w 1) (n + 1) = Some r" by simp
    from step(1) [OF this] s show False by simp
  qed
qed

lemma tick_session_first:
  "pll_next_bit (pll_init 0) (scp_reset tick_session) =
     Some (Inr (1, \<lparr>pll_rev = 0, clock = 1999, flux = - 10, time = 1985, clocked_zeros = 0\<rparr>,
                tick_session\<lparr>iter_limit := 2, iter_ptr := 1\<rparr>))"
proof -
  let ?r = "scp_reset tick_session"
  let ?p1 = "(pll_init 0)\<lparr>flux := 1975\<rparr>"
  let ?s1 = "tick_session\<lparr>iter_limit := 2, iter_ptr := 1\<rparr>"
  have nf: "scp_next_flux ?r 0 = Some (Inr (79, ?s1))"
    using tick_flux_first [of ?r] by (simp add: scp_reset_def)
  have "pll_accumulate (pll_init 0) ?r = pll_accumulate ?p1 ?s1"
    by (subst pll_accumulate.simps)
       (simp add: nf pll_init_def CLOCK_CENTRE_def c_div_def word_sless_alt)
  also have "\<dots> = Some (Inr (?p1, ?s1))"
    by (subst pll_accumulate.simps)
       (simp add: pll_init_def CLOCK_CENTRE_def c_div_def word_sless_alt)
  finally have acc: "pll_accumulate (pll_init 0) ?r = Some (Inr (?p1, ?s1))" .
  have "pll_clock_bit ?p1 =
      (1, \<lparr>pll_rev = 0, clock = 1999, flux = - 10, time = 1985, clocked_zeros = 0\<rparr>)"
    by (simp add: pll_clock_bit_eq spec_classify_def spec_clamp_def pll_init_def CLOCK_CENTRE_def
        c_div_def word_sless_alt word_sle_eq Let_def)
  with acc show ?thesis by (simp add: pll_next_bit_def)
qed

text \<open>
  The natural loop need not stop at all. On a track of the two samples 79 and 1 (1975 ns
  and 25 ns) every call of \<^verbatim>\<open>pll_next_bit\<close> takes both samples and the first one
  again, and ends with the cursor before the second sample: the test of the
  \<^verbatim>\<open>do ... while\<close> loop holds for ever.
\<close>

lemma tick_track_never_ends:
  "scp_select_track (\<lambda>n. True) tick_session 0 = Inr (0, tick_session)
   \<and> scp_write_track (\<lambda>n. True) tick_session blank_writer 0 0 = None"
proof -
  have sel: "scp_select_track (\<lambda>n. True) tick_session 0 = Inr (0, tick_session)"
    by (simp add: scp_select_track_def tick_session_def zero_session_def)
  have rng: "\<not> ((0 :: s32) <s ucast (start_track (header tick_session))
        \<or> ucast (end_track (header tick_session)) \<le>s (0 :: s32))"
    by (simp add: tick_session_def zero_session_def word_sle_eq)
  let ?p1 = "\<lparr>pll_rev = 0, clock = 1999, flux = - 10, time = 1985, clocked_zeros = 0\<rparr>"
  let ?s1 = "tick_session\<lparr>iter_limit := 2, iter_ptr := 1\<rparr>"
  have "tick_stuck ?p1 ?s1" by (simp add: tick_stuck_def)
  with tick_stuck_forever have "scp_decode_loop ?p1 ?s1 (mfm_write_reset blank_writer) 0 = None"
    by (cases "scp_decode_loop ?p1 ?s1 (mfm_write_reset blank_writer) 0") auto
  with sel rng tick_session_first show ?thesis
    by (simp add: scp_write_track_def scp_decode_track_def Let_def)
qed

section \<open>Reading past the end of the file\<close>

lemma sys_read_cases:
  assumes "0 < count" and "sys_read f count = (res, f')"
  shows "res = Rd_Again \<and> unread f' = unread f \<and> script f = Rd_Retry # script f'
         \<or> res = Rd_Failed \<and> Rd_Error \<in> set (script f)
         \<or> (\<exists>j. 1 \<le> j \<and> j \<le> count \<and> res = Rd_Done (take j (unread f))
                \<and> unread f' = drop j (unread f)
                \<and> length (script f') \<le> length (script f)
                \<and> set (script f') \<subseteq> set (script f))"
proof (cases "script f")
  case Nil
  let ?bs = "take count (drop (pos f) (content f))"
  from Nil assms(2) have r: "res = Rd_Done ?bs" and f': "f' = f\<lparr>pos := pos f + length ?bs\<rparr>"
    by (simp_all add: sys_read_def Let_def)
  have "unread f' = drop count (unread f)"
    by (simp add: f' unread_def min_def add.commute)
  with r f' assms(1) Nil show ?thesis
    by (intro disjI2 exI [of _ count]) (simp add: unread_def)
next
  case (Cons ev evs)
  show ?thesis
  proof (cases ev)
    case (Rd_Short k)
    let ?j = "min count (max 1 k)"
    let ?bs = "take ?j (drop (pos f) (content f))"
    from Cons Rd_Short assms(2) have r: "res = Rd_Done ?bs"
      and f': "f' = f\<lparr>pos := pos f + length ?bs, script := evs\<rparr>"
      by (simp_all add: sys_read_def Let_def)
    have "unread f' = drop ?j (unread f)"
      by (simp add: f' unread_def min_def add.commute)
    moreover have "1 \<le> ?j" "?j \<le> count" using assms(1) by simp_all
    ultimately show ?thesis using r f' Cons
      by (intro disjI2 exI [of _ ?j]) (auto simp: unread_def)
  next
    case Rd_Retry
    with Cons assms(2) show ?thesis by (auto simp: sys_read_def unread_def)
  next
    case Rd_Error
    with Cons assms(2) show ?thesis by (auto simp: sys_read_def)
  qed
qed

lemma read_exact_result:
  assumes "Rd_Error \<notin> set (script f)"
  shows "\<exists>f'. read_exact f acc n =
            Inr (acc @ take n (unread f) @ replicate (n - length (unread f)) 0, f')
          \<and> Rd_Error \<notin> set (script f') \<and> seekable f' = seekable f \<and> content f' = content f"
  using assms
proof (induction "n + length (script f)" arbitrary: f acc n rule: less_induct)
  case less
  show ?case
  proof (cases "0 < n")
    case False
    then show ?thesis using less.prems by (subst read_exact.simps) simp
  next
    case True
    obtain res f1 where sr: "sys_read f n = (res, f1)" by (cases "sys_read f n")
    have keep: "seekable f1 = seekable f" "content f1 = content f"
      using sr by (auto simp: sys_read_def Let_def split: list.splits rd_event.splits)
    from sys_read_cases [OF True sr] less.prems consider
      (again) "res = Rd_Again" "unread f1 = unread f" "script f = Rd_Retry # script f1"
      | (data) j where "1 \<le> j" "j \<le> n" "res = Rd_Done (take j (unread f))"
          "unread f1 = drop j (unread f)" "length (script f1) \<le> length (script f)"
          "set (script f1) \<subseteq> set (script f)"
      by blast
    then show ?thesis
    proof cases
      case again
      from again(3) less.prems have e: "Rd_Error \<notin> set (script f1)" by auto
      from again(3) have "n + length (script f1) < n + length (script f)" by simp
      from less.hyps [OF this e, of acc] again(2) keep
      obtain f' where "read_exact f1 acc n =
            Inr (acc @ take n (unread f) @ replicate (n - length (unread f)) 0, f')"
        and "Rd_Error \<notin> set (script f')" "seekable f' = seekable f" "content f' = content f"
        by auto
      moreover have "read_exact f acc n = read_exact f1 acc n"
        using True sr again(1) by (subst read_exact.simps) simp
      ultimately show ?thesis by auto
    next
      case data
      from data(6) less.prems have e: "Rd_Error \<notin> set (script f1)" by auto
      show ?thesis
      proof (cases "take j (unread f) = []")
        case True
        with data(1) have u: "unread f = []" by (cases "unread f") auto
        have "read_exact f acc n = read_exact f1 (acc @ replicate n 0) (n - n)"
          using \<open>0 < n\<close> sr data(3) True by (subst read_exact.simps) simp
        also have "\<dots> = Inr (acc @ replicate n 0, f1)"
          by (subst read_exact.simps) simp
        finally show ?thesis using u e keep by simp
      next
        case False
        define bs where "bs = take j (unread f)"
        from False have lb: "0 < length bs" by (simp add: bs_def)
        have lj: "length bs \<le> j" by (simp add: bs_def)
        from lj data(2) have ln: "length bs \<le> n" by (rule order_trans)
        from ln lb data(5) have m: "n - length bs + length (script f1) < n + length (script f)"
          by linarith
        from less.hyps [OF m e, of "acc @ bs"] keep obtain f' where
          r: "read_exact f1 (acc @ bs) (n - length bs) =
            Inr ((acc @ bs) @ take (n - length bs) (unread f1)
                   @ replicate (n - length bs - length (unread f1)) 0, f')"
          and k: "Rd_Error \<notin> set (script f')" "seekable f' = seekable f" "content f' = content f"
          by auto
        have a: "bs @ take (n - length bs) (unread f1) = take n (unread f)"
        proof (cases "j \<le> length (unread f)")
          case True
          then have "length bs = j" by (simp add: bs_def)
          with data(2,4) show ?thesis unfolding bs_def by (metis le_add_diff_inverse take_add)
        next
          case False
          then have "bs = unread f" "unread f1 = []" using data(4) by (simp_all add: bs_def)
          with False data(2) show ?thesis by simp
        qed
        have b: "n - length bs - length (unread f1) = n - length (unread f)"
          using data(4) by (simp add: bs_def min_def)
        have "read_exact f acc n = read_exact f1 (acc @ bs) (n - length bs)"
          using \<open>0 < n\<close> sr data(3) False by (subst read_exact.simps) (simp add: bs_def)
        with r a b k show ?thesis by (simp only: append_assoc) auto
      qed
    qed
  qed
qed

section \<open>Selecting a track\<close>

lemma convert_revs_keeps:
  "track_nr (track (scp_convert_revs rs t sf)) = track_nr (track sf)
   \<and> trk_sig (track (scp_convert_revs rs t sf)) = trk_sig (track sf)
   \<and> dat (scp_convert_revs rs t sf) = dat sf"
  by (induction rs arbitrary: sf) (simp_all add: Let_def)

lemma read_revs_keeps:
  "scp_read_revs rs sf = Inr (r, sf') \<Longrightarrow>
     track sf' = track sf \<and> (dat sf \<noteq> None \<longrightarrow> dat sf' \<noteq> None)"
proof (induction rs arbitrary: sf)
  case Nil
  then show ?case by simp
next
  case (Cons a rs)
  let ?d = "revs (track sf) ! a"
  show ?case
  proof (cases "sys_lseek (fd sf) (unat (offset ?d))")
    case None
    with Cons.prems show ?thesis by (simp add: Let_def)
  next
    case (Some f1)
    show ?thesis
    proof (cases "dat sf")
      case None
      with Some Cons.prems show ?thesis by (simp add: Let_def)
    next
      case (Some buf)
      show ?thesis
      proof (cases "length buf < unat (datsz sf) + unat (nr_samples ?d)")
        case True
        with Some \<open>sys_lseek (fd sf) (unat (offset ?d)) = Some f1\<close> Cons.prems
        show ?thesis by (simp add: Let_def)
      next
        case False
        show ?thesis
        proof (cases "read_exact f1 [] (unat (nr_samples ?d) * 2)")
          case (Inl e)
          with False Some \<open>sys_lseek (fd sf) (unat (offset ?d)) = Some f1\<close> Cons.prems
          show ?thesis by (simp add: Let_def)
        next
          case (Inr b)
          obtain bytes f2 where b: "b = (bytes, f2)" by (cases b)
          let ?sf1 = "sf\<lparr>fd := f2,
              dat := Some (take (unat (datsz sf)) buf @ samples_of bytes
                       @ drop (unat (datsz sf) + unat (nr_samples ?d)) buf),
              datsz := datsz sf + nr_samples ?d,
              index_ptr := (index_ptr sf)[a := datsz sf + nr_samples ?d]\<rparr>"
          from Inr b False Some \<open>sys_lseek (fd sf) (unat (offset ?d)) = Some f1\<close> Cons.prems
          have "scp_read_revs rs ?sf1 = Inr (r, sf')" by (simp add: Let_def)
          from Cons.IH [OF this] show ?thesis by simp
        qed
      qed
    qed
  qed
qed

lemma select_track_cases:
  assumes "scp_select_track heap sf tn = Inr (r, sf')"
  shows "r = 0 \<and> sf' = sf \<and> dat sf \<noteq> None \<and> ucast (track_nr (track sf)) = tn
         \<or> r = - 1 \<and> dat sf' = None \<and> datsz sf' = 0
         \<or> dat sf' \<noteq> None \<and> trk_sig (track sf') = TRK \<and> ucast (track_nr (track sf')) = tn"
proof (cases "dat sf \<noteq> None \<and> ucast (track_nr (track sf)) = tn")
  case True
  with assms show ?thesis by (simp add: scp_select_track_def)
next
  case False
  then have nf: "(dat sf \<noteq> None \<and> ucast (track_nr (track sf)) = tn) = False" by simp
  note e = assms [unfolded scp_select_track_def nf if_False]
  let ?sf1 = "sf\<lparr>dat := None, datsz := 0\<rparr>"
  let ?off = "track_offset (header ?sf1) ! unat tn"
  let ?nrev = "unat (nr_revolutions (header ?sf1))"
  from e have tm: "\<not> TRACK_MAX \<le> unat tn"
    by (auto simp: Let_def split: if_splits)
  show ?thesis
  proof (cases "sys_lseek (fd ?sf1) (unat ?off)")
    case None
    with tm e show ?thesis by (auto simp: Let_def)
  next
    case (Some f1)
    with tm e have rm: "\<not> REV_MAX < ?nrev"
      by (auto simp: Let_def split: if_splits)
    show ?thesis
    proof (cases "read_exact f1 [] (4 + 12 * ?nrev)")
      case (Inl err)
      with Some tm rm e show ?thesis by (auto simp: Let_def)
    next
      case (Inr b)
      obtain bytes f2 where b: "b = (bytes, f2)" by (cases b)
      let ?sf2 = "?sf1\<lparr>fd := f2, track := load_track bytes ?nrev (track ?sf1)\<rparr>"
      show ?thesis
      proof (cases "trk_sig (track ?sf2) \<noteq> TRK \<or> ucast (track_nr (track ?sf2)) \<noteq> tn")
        case True
        with Inr b Some tm rm e have "r = - 1 \<and> sf' = ?sf2"
          by (auto simp: Let_def split: if_splits)
        then show ?thesis by simp
      next
        case good: False
        let ?sf3 = "scp_convert_revs [0..<?nrev] ?off ?sf2"
        let ?sf4 = "?sf3\<lparr>dat := Some (replicate (unat (datsz ?sf3)) (0, 0)), datsz := 0\<rparr>"
        from good Inr b Some tm rm e
        have "scp_read_revs [0..<?nrev] ?sf4 = Inr (r, sf')"
          by (auto simp: Let_def split: if_splits)
        from read_revs_keeps [OF this] have "track sf' = track ?sf3" "dat sf' \<noteq> None" by simp_all
        with convert_revs_keeps [of "[0..<?nrev]" ?off ?sf2] good
        show ?thesis by simp
      qed
    qed
  qed
qed

text \<open>
  Claim C7: when \<^verbatim>\<open>scp_select_track\<close> has returned 0 for a track, the buffer is
  present, and a call for the same track that follows, whatever the allocator would do,
  returns 0 and leaves the session as it is: the buffer, the index array, the track record
  and the file descriptor with its position and its pending reads are unchanged.
\<close>

theorem select_track_again:
  assumes "scp_select_track heap sf tn = Inr (0, sf')"
  shows "dat sf' \<noteq> None \<and> scp_select_track heap' sf' tn = Inr (0, sf')"
proof -
  from select_track_cases [OF assms]
  have "dat sf' \<noteq> None \<and> ucast (track_nr (track sf')) = tn" by auto
  then show ?thesis by (simp add: scp_select_track_def)
qed

text \<open>
  Claim C10: when \<^verbatim>\<open>scp_select_track\<close> fails and the track record it leaves in the
  session has a signature other than \<open>TRK\<close> or a track number other than the requested
  one, the session has no buffer: \<^verbatim>\<open>dat\<close> is null and \<^verbatim>\<open>datsz\<close> is 0. A later
  call for that track cannot return through the fast path with that session.
\<close>

theorem select_track_failure_clears:
  assumes "scp_select_track heap sf tn = Inr (r, sf')" and "r \<noteq> 0"
    and "trk_sig (track sf') \<noteq> TRK \<or> ucast (track_nr (track sf')) \<noteq> tn"
  shows "dat sf' = None \<and> datsz sf' = 0
         \<and> scp_select_track heap' sf' tn \<noteq> Inr (0, sf')"
proof -
  from select_track_cases [OF assms(1)] assms(2,3)
  have c: "dat sf' = None \<and> datsz sf' = 0" by auto
  have "scp_select_track heap' sf' tn \<noteq> Inr (0, sf')"
  proof
    assume "scp_select_track heap' sf' tn = Inr (0, sf')"
    from select_track_cases [OF this] c show False by auto
  qed
  with c show ?thesis by simp
qed

lemma read_exact_plain:
  assumes "script f = []"
  shows "read_exact f acc n =
           Inr (acc @ take n (unread f) @ replicate (n - length (unread f)) 0,
                f\<lparr>pos := pos f + min n (length (unread f))\<rparr>)"
proof (cases "0 < n")
  case False
  then show ?thesis by (subst read_exact.simps) simp
next
  case True
  define bs where "bs = take n (unread f)"
  define f1 where "f1 = f\<lparr>pos := pos f + length bs\<rparr>"
  have sr: "sys_read f n = (Rd_Done bs, f1)"
    using assms by (simp add: sys_read_def bs_def f1_def unread_def Let_def)
  have lb: "length bs = min n (length (unread f))" by (simp add: bs_def min.commute)
  show ?thesis
  proof (cases "bs = []")
    case True
    then have u: "unread f = []" using \<open>0 < n\<close> by (cases "unread f") (auto simp: bs_def)
    have "read_exact f acc n = read_exact f1 (acc @ replicate n 0) (n - n)"
      using \<open>0 < n\<close> sr True by (subst read_exact.simps) simp
    also have "\<dots> = Inr (acc @ replicate n 0, f1)" by (subst read_exact.simps) simp
    finally show ?thesis using u by (simp add: f1_def bs_def)
  next
    case False
    have one: "read_exact f acc n = read_exact f1 (acc @ bs) (n - length bs)"
      using \<open>0 < n\<close> sr False by (subst read_exact.simps) simp
    show ?thesis
    proof (cases "length bs = n")
      case True
      then have "n \<le> length (unread f)" using lb by simp
      moreover have "read_exact f1 (acc @ bs) (n - length bs) = Inr (acc @ bs, f1)"
        using True by (subst read_exact.simps) simp
      ultimately show ?thesis using one True by (simp add: f1_def bs_def min_def)
    next
      case short: False
      then have lt: "length (unread f) < n" and all: "bs = unread f" using lb
        by (auto simp: bs_def min_def split: if_splits)
      then have rest: "0 < n - length bs" by simp
      have u1: "length (content f1) \<le> pos f1"
        using all by (simp add: f1_def unread_def)
      have s1: "script f1 = []" using assms by (simp add: f1_def)
      have sr1: "sys_read f1 (n - length bs) = (Rd_Done [], f1)"
        using s1 u1 by (simp add: sys_read_def Let_def)
      have "read_exact f1 (acc @ bs) (n - length bs) =
          read_exact f1 ((acc @ bs) @ replicate (n - length bs) 0) (n - length bs - (n - length bs))"
        using rest sr1 by (subst read_exact.simps) simp
      also have "\<dots> = Inr ((acc @ bs) @ replicate (n - length bs) 0, f1)"
        by (subst read_exact.simps) simp
      finally show ?thesis using one all lt by (simp add: f1_def min_def)
    qed
  qed
qed

lemma scp_image_record:
  "take 28 (drop 688 scp_image) =
     [0x54, 0x52, 0x4B, 0,  0, 0, 0, 0,  0, 0, 0, 0,  28, 0, 0, 0,
      0, 0, 0, 0,  1, 0, 0, 0,  28, 0, 0, 0]"
  "length (drop 688 scp_image) = 30"
  "drop 716 scp_image = [0, 0]"
  "length scp_image = 718"
  by (simp_all add: scp_image_def)

lemma replicate_small:
  "replicate 3 x = [x, x, x]" "replicate 5 x = [x, x, x, x, x]" "[0..<2] = [0, 1]"
  by (simp_all add: eval_nat_numeral)

lemma empty_rev_session_fields:
  "dat empty_rev_session = None"
  "track empty_rev_session = track zero_session"
  "fd empty_rev_session = \<lparr>content = scp_image, pos = 688, seekable = True, script = []\<rparr>"
  "nr_revolutions (header empty_rev_session) = 2"
  "start_track (header empty_rev_session) = 0"
  "end_track (header empty_rev_session) = 1"
  "track_offset (header empty_rev_session) ! 0 = 688"
  "track_offset (header empty_rev_session) ! Suc 0 = 0"
  "index_ptr empty_rev_session = [0, 0, 0, 0, 0]"
  by (simp_all add: empty_rev_session_def zero_session_def TRACK_MAX_def REV_MAX_def
      replicate_small)

lemma empty_rev_select:
  "scp_select_track (\<lambda>n. True) empty_rev_session 0 = Inr (0, empty_rev_loaded)"
proof -
  let ?f1 = "\<lparr>content = scp_image, pos = 688, seekable = True, script = []\<rparr>"
  let ?rec = "[0x54, 0x52, 0x4B, 0,  0, 0, 0, 0,  0, 0, 0, 0,  28, 0, 0, 0,
      0, 0, 0, 0,  1, 0, 0, 0,  28, 0, 0, 0] :: u8 list"
  have r1: "read_exact ?f1 [] 28 = Inr (?rec, ?f1\<lparr>pos := 716\<rparr>)"
    by (simp add: read_exact_plain unread_def scp_image_record)
  let ?f2 = "\<lparr>content = scp_image, pos = 716, seekable = True, script = []\<rparr>"
  have r2: "read_exact ?f2 [] 0 = Inr ([], ?f2)"
    by (simp add: read_exact_plain unread_def)
  have r3: "read_exact ?f2 [] 2 = Inr ([0, 0], ?f2\<lparr>pos := 718\<rparr>)"
    by (simp add: read_exact_plain unread_def scp_image_record)
  have lt: "load_track ?rec 2 (track zero_session) =
      \<lparr>trk_sig = TRK, track_nr = 0,
                  revs = [\<lparr>duration_25ns = 0, nr_samples = 0, offset = 28\<rparr>,
                          \<lparr>duration_25ns = 0, nr_samples = 1, offset = 28\<rparr>,
                          \<lparr>duration_25ns = 0, nr_samples = 0, offset = 0\<rparr>,
                          \<lparr>duration_25ns = 0, nr_samples = 0, offset = 0\<rparr>,
                          \<lparr>duration_25ns = 0, nr_samples = 0, offset = 0\<rparr>]\<rparr>"
    by (simp add: load_track_def load_rev_def le32_def TRK_def zero_session_def REV_MAX_def
        replicate_small)
  show ?thesis
    by (simp add: scp_select_track_def empty_rev_session_fields empty_rev_loaded_def
        Let_def sys_lseek_def TRACK_MAX_def REV_MAX_def r1 r2 r3 lt replicate_small)
qed

text \<open>The example: track 0 is loaded from the image, and selected again.\<close>

theorem select_track_again_witness:
  "scp_select_track (\<lambda>n. True) empty_rev_session 0 = Inr (0, empty_rev_loaded)
   \<and> dat empty_rev_loaded \<noteq> None
   \<and> scp_select_track (\<lambda>n. False) empty_rev_loaded 0 = Inr (0, empty_rev_loaded)"
  using select_track_again [OF empty_rev_select, of "\<lambda>n. False"] empty_rev_select
  by simp

lemma empty_rev_loaded_fields:
  "dat empty_rev_loaded = Some [(0, 0)]"
  "track_nr (track empty_rev_loaded) = 0"
  "fd empty_rev_loaded = \<lparr>content = scp_image, pos = 718, seekable = True, script = []\<rparr>"
  "nr_revolutions (header empty_rev_loaded) = 2"
  "start_track (header empty_rev_loaded) = 0"
  "end_track (header empty_rev_loaded) = 1"
  "track_offset (header empty_rev_loaded) ! Suc 0 = 0"
  "index_ptr empty_rev_loaded = [0, 1, 0, 0, 0]"
  by (simp_all add: empty_rev_loaded_def empty_rev_session_fields)

lemma empty_rev_select_other:
  "scp_select_track (\<lambda>n. True) empty_rev_loaded 1 =
     Inr (- 1, empty_rev_loaded\<lparr>
            fd := \<lparr>content = scp_image, pos = 28, seekable = True, script = []\<rparr>,
            track := load_track (replicate 28 0) 2 (track empty_rev_loaded),
            dat := None, datsz := 0\<rparr>)"
proof -
  let ?f0 = "\<lparr>content = scp_image, pos = 0, seekable = True, script = []\<rparr>"
  have "take 28 scp_image = replicate 28 0" by (simp add: scp_image_def)
  then have r1: "read_exact ?f0 [] 28 = Inr (replicate 28 0, ?f0\<lparr>pos := 28\<rparr>)"
    by (simp add: read_exact_plain unread_def scp_image_record)
  have ns: "trk_sig (load_track (replicate 28 0) 2 (track empty_rev_loaded)) \<noteq> TRK"
    by (simp add: load_track_def TRK_def replicate_small)
  show ?thesis
    using ns
    by (simp add: scp_select_track_def empty_rev_loaded_fields
        Let_def sys_lseek_def TRACK_MAX_def REV_MAX_def r1)
qed

text \<open>
  The example: with track 0 loaded, the selection of track 1 reads a record of zero bytes
  and fails on the signature.
\<close>

theorem select_track_failure_clears_witness:
  "dat empty_rev_loaded \<noteq> None
   \<and> scp_select_track (\<lambda>n. True) empty_rev_loaded 1 =
     Inr (- 1, empty_rev_loaded\<lparr>
            fd := \<lparr>content = scp_image, pos = 28, seekable = True, script = []\<rparr>,
            track := load_track (replicate 28 0) 2 (track empty_rev_loaded),
            dat := None, datsz := 0\<rparr>)
   \<and> trk_sig (load_track (replicate 28 0) 2 (track empty_rev_loaded)) \<noteq> TRK
   \<and> scp_select_track (\<lambda>n. True) (empty_rev_loaded\<lparr>
            fd := \<lparr>content = scp_image, pos = 28, seekable = True, script = []\<rparr>,
            track := load_track (replicate 28 0) 2 (track empty_rev_loaded),
            dat := None, datsz := 0\<rparr>) 1
       \<noteq> Inr (0, empty_rev_loaded\<lparr>
            fd := \<lparr>content = scp_image, pos = 28, seekable = True, script = []\<rparr>,
            track := load_track (replicate 28 0) 2 (track empty_rev_loaded),
            dat := None, datsz := 0\<rparr>)"
proof -
  have ns: "trk_sig (load_track (replicate 28 0) 2 (track empty_rev_loaded)) \<noteq> TRK"
    by (simp add: load_track_def TRK_def replicate_small)
  have nz: "(- 1 :: s32) \<noteq> 0" by simp
  from select_track_failure_clears [OF empty_rev_select_other nz, of "\<lambda>n. True"] ns
    empty_rev_select_other empty_rev_loaded_fields(1)
  show ?thesis by simp
qed

lemma empty_stuck_forever:
  assumes "scp_flux_loop sf rev_nr val = Some r"
  shows "\<not> empty_stuck sf rev_nr"
  using assms
proof (induct rule: scp_flux_loop.raw_induct [rotated, consumes 1, case_names step])
  case (step f sf rev_nr val r)
  show ?case
  proof
    assume s: "empty_stuck sf rev_nr"
    then obtain buf where buf: "dat sf = Some buf"
      and ib: "unat (slice_start sf rev_nr) < length buf"
      and z: "be16toh (buf ! unat (slice_start sf rev_nr)) = 0"
      by (auto simp: empty_stuck_def split: option.splits)
    from s have p: "iter_limit sf \<le> iter_ptr sf" and r: "unat rev_nr < length (index_ptr sf)"
      and e: "slice_end sf rev_nr = slice_start sf rev_nr"
      and o: "slice_start sf rev_nr \<le> slice_start sf rev_nr + 1"
      by (simp_all add: empty_stuck_def)
    let ?sf1 = "sf\<lparr>iter_limit := slice_end sf rev_nr, iter_ptr := slice_start sf rev_nr\<rparr>"
    let ?sf2 = "?sf1\<lparr>iter_ptr := iter_ptr ?sf1 + 1\<rparr>"
    have "scp_flux_step sf rev_nr val = Flux_Again (0 + 0x10000) ?sf2"
      using restart_pending [OF p r, of val] buf ib z
      by (simp add: scp_flux_step_def Let_def)
    with step(2) have "f ?sf2 rev_nr (0 + 0x10000) = Some r" by simp
    from step(1) [OF this] have "\<not> empty_stuck ?sf2 rev_nr" .
    moreover have "empty_stuck ?sf2 rev_nr"
      using r e o buf ib z by (simp add: empty_stuck_def)
    ultimately show False by simp
  qed
qed

text \<open>
  Claim C3 at a failing input. In the image, track 0 has two revolutions: the first is
  empty and the second is one zero sample. The selection of the track succeeds, the slice
  of revolution 0 is empty, and the body of the track loop for revolution 0 does not take
  the filler branch: it runs the PLL, whose first request for flux never returns.
\<close>

theorem empty_revolution_is_decoded:
  "scp_select_track (\<lambda>n. True) empty_rev_session 0 = Inr (0, empty_rev_loaded)
   \<and> slice empty_rev_loaded 0 = []
   \<and> scp_next_flux (scp_reset empty_rev_loaded) 0 = None
   \<and> scp_write_track (\<lambda>n. True) empty_rev_session blank_writer 0 0 = None"
proof -
  have sl: "slice empty_rev_loaded 0 = []"
    by (simp add: slice_def slice_start_def slice_end_def empty_rev_loaded_fields)
  have "empty_stuck (scp_reset empty_rev_loaded) 0"
    by (simp add: empty_stuck_def scp_reset_def slice_start_def slice_end_def
        empty_rev_loaded_fields be16toh_def)
  with empty_stuck_forever have nf: "scp_next_flux (scp_reset empty_rev_loaded) 0 = None"
    unfolding scp_next_flux_def
    by (cases "scp_flux_loop (scp_reset empty_rev_loaded) 0 0") auto
  have "pll_accumulate (pll_init 0) (scp_reset empty_rev_loaded) = None"
    by (subst pll_accumulate.simps)
       (simp add: nf pll_init_def CLOCK_CENTRE_def c_div_def word_sless_alt)
  then have "scp_decode_track empty_rev_loaded (mfm_write_reset blank_writer) 0 = None"
    by (simp add: scp_decode_track_def pll_next_bit_def)
  then have "scp_write_track (\<lambda>n. True) empty_rev_session blank_writer 0 0 = None"
    by (simp add: scp_write_track_def empty_rev_select empty_rev_session_fields Let_def
        word_sle_eq)
  with empty_rev_select sl nf show ?thesis by simp
qed

section \<open>Slices of a freshly loaded track\<close>

lemma read_exact_length:
  "read_exact f acc n = Inr (bytes, f') \<Longrightarrow> length bytes = length acc + n"
proof (induction "n + length (script f)" arbitrary: f acc n rule: less_induct)
  case less
  show ?case
  proof (cases "0 < n")
    case False
    with less.prems show ?thesis by (subst (asm) read_exact.simps) auto
  next
    case True
    obtain res f1 where sr: "sys_read f n = (res, f1)" by (cases "sys_read f n")
    from sys_read_cases [OF True sr] consider
      (again) "res = Rd_Again" "script f = Rd_Retry # script f1"
      | (failed) "res = Rd_Failed"
      | (data) j where "1 \<le> j" "j \<le> n" "res = Rd_Done (take j (unread f))"
          "length (script f1) \<le> length (script f)"
      by blast
    then show ?thesis
    proof cases
      case again
      from again(2) have m: "n + length (script f1) < n + length (script f)" by simp
      from less.prems True sr again(1) have "read_exact f1 acc n = Inr (bytes, f')"
        by (subst (asm) read_exact.simps) simp
      from less.hyps [OF m this] show ?thesis .
    next
      case failed
      with less.prems True sr show ?thesis by (subst (asm) read_exact.simps) simp
    next
      case data
      define bs where "bs = take j (unread f)"
      show ?thesis
      proof (cases "bs = []")
        case True
        with less.prems \<open>0 < n\<close> sr data(3)
        have "read_exact f1 (acc @ replicate n 0) (n - n) = Inr (bytes, f')"
          by (subst (asm) read_exact.simps) (simp add: bs_def)
        then have "bytes = acc @ replicate n 0"
          by (subst (asm) read_exact.simps) simp
        then show ?thesis by simp
      next
        case False
        then have lb: "0 < length bs" by simp
        have "length bs \<le> j" by (simp add: bs_def)
        with data(2) have ln: "length bs \<le> n" by linarith
        from ln lb data(4) have m: "n - length bs + length (script f1) < n + length (script f)"
          by linarith
        from less.prems \<open>0 < n\<close> sr data(3) False
        have "read_exact f1 (acc @ bs) (n - length bs) = Inr (bytes, f')"
          by (subst (asm) read_exact.simps) (simp add: bs_def)
        from less.hyps [OF m this] ln show ?thesis by simp
      qed
    qed
  qed
qed

lemma samples_of_length: "length (samples_of bs) = length bs div 2"
  by (induction bs rule: samples_of.induct) simp_all

text \<open>
  What the loop that reads the samples keeps: the size of the buffer and the length of the
  index array; and when it ends with 0, every entry of the index array that it has written
  is an end offset inside the buffer.
\<close>

lemma read_revs_indices:
  assumes "scp_read_revs rs sf = Inr (r, sf')" and "dat sf = Some buf"
  shows "(\<exists>buf'. dat sf' = Some buf' \<and> length buf' = length buf)
         \<and> length (index_ptr sf') = length (index_ptr sf)
         \<and> (r = 0 \<longrightarrow> (\<forall>i \<in> set rs. i < length (index_ptr sf)
                  \<longrightarrow> unat (index_ptr sf' ! i) \<le> length buf))"
  using assms
proof (induction rs arbitrary: sf buf)
  case Nil
  then show ?case by simp
next
  case (Cons a rs)
  let ?d = "revs (track sf) ! a"
  show ?case
  proof (cases "sys_lseek (fd sf) (unat (offset ?d))")
    case None
    with Cons.prems show ?thesis by (auto simp: Let_def)
  next
    case (Some f1)
    show ?thesis
    proof (cases "length buf < unat (datsz sf) + unat (nr_samples ?d)")
      case True
      with Some Cons.prems show ?thesis by (simp add: Let_def)
    next
      case fits: False
      show ?thesis
      proof (cases "read_exact f1 [] (unat (nr_samples ?d) * 2)")
        case (Inl e)
        with fits Some Cons.prems show ?thesis by (simp add: Let_def)
      next
        case (Inr b)
        obtain bytes f2 where b: "b = (bytes, f2)" by (cases b)
        let ?sz = "datsz sf + nr_samples ?d"
        let ?buf1 = "take (unat (datsz sf)) buf @ samples_of bytes
                       @ drop (unat (datsz sf) + unat (nr_samples ?d)) buf"
        let ?sf1 = "sf\<lparr>fd := f2, dat := Some ?buf1, datsz := ?sz,
              index_ptr := (index_ptr sf)[a := ?sz]\<rparr>"
        from Inr b have "length bytes = unat (nr_samples ?d) * 2"
          using read_exact_length [of f1 "[]" "unat (nr_samples ?d) * 2" bytes f2] by simp
        then have ls: "length (samples_of bytes) = unat (nr_samples ?d)"
          by (simp add: samples_of_length)
        with fits have l1: "length ?buf1 = length buf" by simp
        from fits have "unat (datsz sf) + unat (nr_samples ?d) < 2 ^ LENGTH(32) \<or>
            length buf \<ge> unat (datsz sf) + unat (nr_samples ?d)" by simp
        have usz: "unat ?sz \<le> unat (datsz sf) + unat (nr_samples ?d)"
          by (simp add: unat_word_ariths)
        with fits have szb: "unat ?sz \<le> length buf" by simp
        from Inr b fits Some Cons.prems
        have rest: "scp_read_revs rs ?sf1 = Inr (r, sf')" by (simp add: Let_def)
        have d1: "dat ?sf1 = Some ?buf1" by simp
        note ih = Cons.IH [OF rest d1]
        from ih l1 have A: "\<exists>buf'. dat sf' = Some buf' \<and> length buf' = length buf" by simp
        from ih have B: "length (index_ptr sf') = length (index_ptr sf)" by simp
        have C: "unat (index_ptr sf' ! i) \<le> length buf"
          if r0: "r = 0" and i: "i \<in> set (a # rs)" "i < length (index_ptr sf)" for i
        proof (cases "i \<in> set rs")
          case True
          with ih r0 i(2) l1 show ?thesis by simp
        next
          case False
          with i(1) have ia: "i = a" by simp
          have keep: "index_ptr sf'' ! a = index_ptr s ! a"
            if "scp_read_revs rs s = Inr (r, sf'')" "a \<notin> set rs" for s sf''
            using that
          proof (induction rs arbitrary: s)
            case Nil
            then show ?case by simp
          next
            case (Cons c cs)
            then show ?case
              by (auto simp: Let_def split: option.splits if_splits sum.splits prod.splits)
          qed
          from keep [OF rest] False ia have "index_ptr sf' ! a = index_ptr ?sf1 ! a" by simp
          with i(2) ia szb show ?thesis by simp
        qed
        from A B C show ?thesis by blast
      qed
    qed
  qed
qed

lemma convert_revs_index: "index_ptr (scp_convert_revs rs t sf) = index_ptr sf"
  by (induction rs arbitrary: sf) (simp_all add: Let_def)

text \<open>
  A track that has just been loaded: every slice of a stored revolution that is not
  empty is in order, when the index array has room for the revolution.
\<close>

lemma select_track_slices:
  assumes sel: "scp_select_track heap sf tn = Inr (0, sf')"
    and fresh: "dat sf = None"
    and rev: "unat rev_nr < unat (nr_revolutions (header sf))"
    and room: "unat rev_nr < length (index_ptr sf)"
    and some: "slice_start sf' rev_nr < slice_end sf' rev_nr"
  shows "slice_ok sf' rev_nr"
proof -
  from fresh have nf: "(dat sf \<noteq> None \<and> ucast (track_nr (track sf)) = tn) = False" by simp
  note e = sel [unfolded scp_select_track_def nf if_False]
  let ?sf1 = "sf\<lparr>dat := None, datsz := 0\<rparr>"
  let ?off = "track_offset (header ?sf1) ! unat tn"
  let ?nrev = "unat (nr_revolutions (header ?sf1))"
  from e have tm: "\<not> TRACK_MAX \<le> unat tn"
    by (auto simp: Let_def split: if_splits)
  show ?thesis
  proof (cases "sys_lseek (fd ?sf1) (unat ?off)")
    case None
    with tm e show ?thesis by (auto simp: Let_def)
  next
    case (Some f1)
    with tm e have rm: "\<not> REV_MAX < ?nrev"
      by (auto simp: Let_def split: if_splits)
    show ?thesis
    proof (cases "read_exact f1 [] (4 + 12 * ?nrev)")
      case (Inl err)
      with Some tm rm e show ?thesis by (auto simp: Let_def)
    next
      case (Inr b)
      obtain bytes f2 where b: "b = (bytes, f2)" by (cases b)
      let ?sf2 = "?sf1\<lparr>fd := f2, track := load_track bytes ?nrev (track ?sf1)\<rparr>"
      show ?thesis
      proof (cases "trk_sig (track ?sf2) \<noteq> TRK \<or> ucast (track_nr (track ?sf2)) \<noteq> tn")
        case True
        with Inr b Some tm rm e show ?thesis
          by (auto simp: Let_def split: if_splits)
      next
        case good: False
        let ?sf3 = "scp_convert_revs [0..<?nrev] ?off ?sf2"
        let ?buf = "replicate (unat (datsz ?sf3)) (0, 0) :: sample list"
        let ?sf4 = "?sf3\<lparr>dat := Some ?buf, datsz := 0\<rparr>"
        from good Inr b Some tm rm e
        have rr: "scp_read_revs [0..<?nrev] ?sf4 = Inr (0, sf')"
          by (auto simp: Let_def split: if_splits)
        have d4: "dat ?sf4 = Some ?buf" by simp
        have i4: "index_ptr ?sf4 = index_ptr sf" by (simp add: convert_revs_index)
        note inv = read_revs_indices [OF rr d4]
        from inv obtain buf' where b': "dat sf' = Some buf'" "length buf' = length ?buf"
          by blast
        from inv i4 have li: "length (index_ptr sf') = length (index_ptr sf)" by simp
        from rev have "unat rev_nr \<in> set [0..<?nrev]" by simp
        with inv room i4 have "unat (index_ptr sf' ! unat rev_nr) \<le> length ?buf" by simp
        with b' li room some show ?thesis by (simp add: slice_ok_def slice_end_def)
      qed
    qed
  qed
qed

section \<open>Loading a capture that is cut off\<close>

lemma padded_bytes:
  "take n (drop off c) @ replicate (n - length (drop off c)) (0 :: u8)
     = map (\<lambda>i. if i < length c then c ! i else 0) [off..<off + n]"
proof (rule nth_equalityI)
  show "length (take n (drop off c) @ replicate (n - length (drop off c)) (0 :: u8))
          = length (map (\<lambda>i. if i < length c then c ! i else 0) [off..<off + n])"
    by simp
next
  fix i assume "i < length (take n (drop off c) @ replicate (n - length (drop off c)) (0 :: u8))"
  then have i: "i < n" by simp
  show "(take n (drop off c) @ replicate (n - length (drop off c)) (0 :: u8)) ! i
          = map (\<lambda>i. if i < length c then c ! i else 0) [off..<off + n] ! i"
  proof (cases "off + i < length c")
    case True
    with i have "i < length (take n (drop off c))" by simp
    with True i show ?thesis by (simp add: nth_append)
  next
    case False
    with i have "\<not> i < length (take n (drop off c))" by simp
    with False i show ?thesis by (simp add: nth_append)
  qed
qed

lemma read_exact_at:
  assumes "Rd_Error \<notin> set (script f)"
  shows "\<exists>f'. read_exact (f\<lparr>pos := off\<rparr>) [] n = Inr (map (file_byte f) [off..<off + n], f')
           \<and> Rd_Error \<notin> set (script f') \<and> seekable f' = seekable f \<and> content f' = content f"
proof -
  have e: "Rd_Error \<notin> set (script (f\<lparr>pos := off\<rparr>))" using assms by simp
  have "map (file_byte f) [off..<off + n]
          = take n (unread (f\<lparr>pos := off\<rparr>)) @ replicate (n - length (unread (f\<lparr>pos := off\<rparr>))) 0"
    using padded_bytes [of n off "content f"] by (simp add: unread_def file_byte_def)
  with read_exact_result [OF e, of "[]" n] show ?thesis by auto
qed

lemma samples_of_map:
  "samples_of (map g [a..<a + 2 * n]) = map (\<lambda>i. (g (a + 2 * i), g (a + 2 * i + 1))) [0..<n]"
proof (induction n arbitrary: a)
  case 0
  then show ?case by simp
next
  case (Suc n)
  have u: "[a..<a + 2 * Suc n] = a # (a + 1) # [a + 2..<a + 2 + 2 * n]"
    by (simp add: upt_conv_Cons)
  have "map (\<lambda>i. (g (a + 2 * i), g (a + 2 * i + 1))) [0..<Suc n]
          = (g a, g (a + 1)) # map (\<lambda>i. (g (a + 2 + 2 * i), g (a + 2 + 2 * i + 1))) [0..<n]"
    by (simp only: map_upt_Suc) simp
  with Suc [of "a + 2"] u show ?case by simp
qed

lemma unat_u8_u32: "unat (ucast (b :: u8) :: u32) = unat b"
  by transfer simp

lemma unat_le32:
  "unat (le32 bs) = unat (bs ! 0) + 256 * unat (bs ! 1) + 65536 * unat (bs ! 2)
                      + 16777216 * unat (bs ! 3)"
proof -
  have b: "unat (bs ! 0) < 256" "unat (bs ! 1) < 256" "unat (bs ! 2) < 256" "unat (bs ! 3) < 256"
    using unsigned_less [of "bs ! 0", where 'a = nat] unsigned_less [of "bs ! 1", where 'a = nat]
      unsigned_less [of "bs ! 2", where 'a = nat] unsigned_less [of "bs ! 3", where 'a = nat]
    by simp_all
  then have "unat (bs ! 0) + 256 * unat (bs ! 1) + 65536 * unat (bs ! 2)
                      + 16777216 * unat (bs ! 3) < 4294967296" by linarith
  then show ?thesis
    by (simp add: le32_def unat_word_ariths unat_u8_u32 mod_simps)
qed

lemma convert_revs_result:
  assumes "distinct rs" and "\<forall>r \<in> set rs. r < length (revs (track sf))"
  shows "revs (track (scp_convert_revs rs t sf))
           = map (\<lambda>r. if r \<in> set rs
                       then (revs (track sf) ! r)\<lparr>offset := t + offset (revs (track sf) ! r)\<rparr>
                       else revs (track sf) ! r) [0..<length (revs (track sf))]
         \<and> datsz (scp_convert_revs rs t sf)
             = datsz sf + of_nat (sum_list (map (\<lambda>r. unat (nr_samples (revs (track sf) ! r))) rs))
         \<and> fd (scp_convert_revs rs t sf) = fd sf
         \<and> header (scp_convert_revs rs t sf) = header sf"
  using assms
proof (induction rs arbitrary: sf)
  case Nil
  show ?case by (simp add: map_nth)
next
  case (Cons a rs)
  let ?d = "revs (track sf) ! a"
  let ?d' = "?d\<lparr>offset := t + offset ?d\<rparr>"
  let ?sf1 = "sf\<lparr>track := (track sf)\<lparr>revs := (revs (track sf))[a := ?d']\<rparr>,
               datsz := datsz sf + nr_samples ?d'\<rparr>"
  from Cons.prems have a: "a < length (revs (track sf))" and na: "a \<notin> set rs"
    and d: "distinct rs" and l: "\<forall>r \<in> set rs. r < length (revs (track ?sf1))" by simp_all
  note ih = Cons.IH [OF d l]
  have same: "revs (track ?sf1) ! r = revs (track sf) ! r" if "r \<in> set rs" for r
  proof -
    from that na have "a \<noteq> r" by auto
    then show ?thesis by simp
  qed
  have sum: "map (\<lambda>r. unat (nr_samples (revs (track ?sf1) ! r))) rs
             = map (\<lambda>r. unat (nr_samples (revs (track sf) ! r))) rs"
    using same by (intro map_cong) simp_all
  have unf: "scp_convert_revs (a # rs) t sf = scp_convert_revs rs t ?sf1" by (simp add: Let_def)
  have r1: "revs (track (scp_convert_revs (a # rs) t sf))
           = map (\<lambda>r. if r \<in> set (a # rs)
                       then (revs (track sf) ! r)\<lparr>offset := t + offset (revs (track sf) ! r)\<rparr>
                       else revs (track sf) ! r) [0..<length (revs (track sf))]"
  proof -
    from ih have "revs (track (scp_convert_revs rs t ?sf1))
           = map (\<lambda>r. if r \<in> set rs
                       then (revs (track ?sf1) ! r)\<lparr>offset := t + offset (revs (track ?sf1) ! r)\<rparr>
                       else revs (track ?sf1) ! r) [0..<length (revs (track ?sf1))]" by simp
    also have "\<dots> = map (\<lambda>r. if r \<in> set (a # rs)
                       then (revs (track sf) ! r)\<lparr>offset := t + offset (revs (track sf) ! r)\<rparr>
                       else revs (track sf) ! r) [0..<length (revs (track sf))]"
      using a na by (auto simp: nth_list_update)
    finally show ?thesis by (simp only: unf)
  qed
  have r2: "datsz (scp_convert_revs (a # rs) t sf)
             = datsz sf + of_nat (sum_list (map (\<lambda>r. unat (nr_samples (revs (track sf) ! r))) (a # rs)))"
  proof -
    from ih have "datsz (scp_convert_revs rs t ?sf1)
             = datsz ?sf1 + of_nat (sum_list (map (\<lambda>r. unat (nr_samples (revs (track ?sf1) ! r))) rs))"
      by simp
    then show ?thesis by (simp only: unf sum) simp
  qed
  from ih have r3: "fd (scp_convert_revs (a # rs) t sf) = fd sf"
    and r4: "header (scp_convert_revs (a # rs) t sf) = header sf" by (simp_all only: unf) simp_all
  from r1 r2 r3 r4 show ?case by blast
qed

text \<open>
  The loop that reads the samples, on a descriptor that is seekable and has no device
  error: each revolution's slice of the buffer receives the bytes of the file at the
  revolution's offset, two to a sample, with zeros for the bytes past the end of the file.
\<close>

lemma read_revs_loaded:
  assumes "seekable (fd sf)" and "Rd_Error \<notin> set (script (fd sf))" and "dat sf = Some buf"
    and "unat (datsz sf) + sum_list (map (\<lambda>r. unat (nr_samples (revs (track sf) ! r))) rs)
           \<le> length buf"
    and "length buf < 2 ^ 32"
  shows "\<exists>sf'. scp_read_revs rs sf = Inr (0, sf')
           \<and> dat sf' = Some (take (unat (datsz sf)) buf
               @ concat (map (\<lambda>r. map (\<lambda>i.
                     (file_byte (fd sf) (unat (offset (revs (track sf) ! r)) + 2 * i),
                      file_byte (fd sf) (unat (offset (revs (track sf) ! r)) + 2 * i + 1)))
                     [0..<unat (nr_samples (revs (track sf) ! r))]) rs)
               @ drop (unat (datsz sf)
                        + sum_list (map (\<lambda>r. unat (nr_samples (revs (track sf) ! r))) rs)) buf)"
  using assms
proof (induction rs arbitrary: sf buf)
  case Nil
  then show ?case by simp
next
  case (Cons a rs)
  let ?d = "revs (track sf) ! a"
  let ?n = "unat (nr_samples ?d)"
  let ?o = "unat (offset ?d)"
  let ?rest = "sum_list (map (\<lambda>r. unat (nr_samples (revs (track sf) ! r))) rs)"
  let ?f1 = "(fd sf)\<lparr>pos := ?o\<rparr>"
  let ?new = "map (\<lambda>i. (file_byte (fd sf) (?o + 2 * i), file_byte (fd sf) (?o + 2 * i + 1))) [0..<?n]"
  from Cons.prems(1) have sk: "sys_lseek (fd sf) ?o = Some ?f1" by (simp add: sys_lseek_def)
  from Cons.prems(4) have fit: "unat (datsz sf) + ?n + ?rest \<le> length buf" by simp
  then have nf: "\<not> length buf < unat (datsz sf) + ?n" by simp
  from read_exact_at [OF Cons.prems(2), of ?o "?n * 2"] obtain f2 where
    rd: "read_exact ?f1 [] (?n * 2) = Inr (map (file_byte (fd sf)) [?o..<?o + ?n * 2], f2)"
    and k: "Rd_Error \<notin> set (script f2)" "seekable f2 = seekable (fd sf)"
      "content f2 = content (fd sf)" by blast
  have so: "samples_of (map (file_byte (fd sf)) [?o..<?o + ?n * 2]) = ?new"
    using samples_of_map [of "file_byte (fd sf)" ?o ?n] by (simp add: mult.commute)
  let ?buf1 = "take (unat (datsz sf)) buf @ ?new @ drop (unat (datsz sf) + ?n) buf"
  let ?sz = "datsz sf + nr_samples ?d"
  let ?sf1 = "sf\<lparr>fd := f2, dat := Some ?buf1, datsz := ?sz,
              index_ptr := (index_ptr sf)[a := ?sz]\<rparr>"
  have unf: "scp_read_revs (a # rs) sf = scp_read_revs rs ?sf1"
    using sk Cons.prems(3) nf rd so by (simp add: Let_def)
  from fit Cons.prems(5) have "unat (datsz sf) + unat (nr_samples ?d) < 2 ^ LENGTH(32)" by simp
  then have usz: "unat ?sz = unat (datsz sf) + ?n" by (simp add: unat_add_lem [THEN iffD1])
  have l1: "length ?buf1 = length buf" using fit by simp
  have fb: "file_byte f2 = file_byte (fd sf)" using k(3) by (simp add: file_byte_def fun_eq_iff)
  have h1: "seekable (fd ?sf1)" using k(2) Cons.prems(1) by simp
  have h2: "Rd_Error \<notin> set (script (fd ?sf1))" using k(1) by simp
  have h3: "dat ?sf1 = Some ?buf1" by simp
  have h4: "unat (datsz ?sf1) + sum_list (map (\<lambda>r. unat (nr_samples (revs (track ?sf1) ! r))) rs)
           \<le> length ?buf1" using usz fit l1 by simp
  have h5: "length ?buf1 < 2 ^ 32" using l1 Cons.prems(5) by simp
  from Cons.IH [OF h1 h2 h3 h4 h5] obtain sf' where
    r: "scp_read_revs rs ?sf1 = Inr (0, sf')"
    and dd: "dat sf' = Some (take (unat (datsz ?sf1)) ?buf1
               @ concat (map (\<lambda>r. map (\<lambda>i.
                     (file_byte (fd ?sf1) (unat (offset (revs (track ?sf1) ! r)) + 2 * i),
                      file_byte (fd ?sf1) (unat (offset (revs (track ?sf1) ! r)) + 2 * i + 1)))
                     [0..<unat (nr_samples (revs (track ?sf1) ! r))]) rs)
               @ drop (unat (datsz ?sf1)
                        + sum_list (map (\<lambda>r. unat (nr_samples (revs (track ?sf1) ! r))) rs)) ?buf1)"
    by blast
  have ln: "length ?new = ?n" by simp
  have lt: "length (take (unat (datsz sf)) buf) = unat (datsz sf)" using fit by simp
  have t1: "take (unat (datsz sf) + ?n) ?buf1 = take (unat (datsz sf)) buf @ ?new"
    using lt ln by simp
  have d1: "drop (unat (datsz sf) + ?n + ?rest) ?buf1 = drop (unat (datsz sf) + ?n + ?rest) buf"
    using lt ln by (simp add: add.commute add.left_commute)
  have "dat sf' = Some (take (unat (datsz sf)) buf
               @ concat (map (\<lambda>r. map (\<lambda>i.
                     (file_byte (fd sf) (unat (offset (revs (track sf) ! r)) + 2 * i),
                      file_byte (fd sf) (unat (offset (revs (track sf) ! r)) + 2 * i + 1)))
                     [0..<unat (nr_samples (revs (track sf) ! r))]) (a # rs))
               @ drop (unat (datsz sf)
                        + sum_list (map (\<lambda>r. unat (nr_samples (revs (track sf) ! r))) (a # rs))) buf)"
    using dd t1 d1 by (simp add: usz fb add.assoc)
  with r unf show ?case by auto
qed

lemma le32_field:
  assumes "k + 4 \<le> length bs"
  shows "unat (le32 (take 4 (drop k bs))) =
           unat (bs ! k) + 256 * unat (bs ! (k + 1)) + 65536 * unat (bs ! (k + 2))
             + 16777216 * unat (bs ! (k + 3))"
  using assms by (simp add: unat_le32)

lemma record_fields:
  assumes "r < R"
  shows "unat (nr_samples (load_rev (take 12 (drop (4 + 12 * r)
             (map (file_byte f) [T..<T + (4 + 12 * R)])))))
           = file_le32 f (T + 4 + 12 * r + 4)"
    and "unat (offset (load_rev (take 12 (drop (4 + 12 * r)
             (map (file_byte f) [T..<T + (4 + 12 * R)])))))
           = file_le32 f (T + 4 + 12 * r + 8)"
proof -
  let ?bs = "map (file_byte f) [T..<T + (4 + 12 * R)]"
  from assms have l: "4 + 12 * r + 12 \<le> length ?bs" by simp
  have a: "take 4 (drop 4 (take 12 (drop (4 + 12 * r) ?bs))) = take 4 (drop (4 + 12 * r + 4) ?bs)"
    by (simp add: drop_take add.commute)
  have b: "take 4 (drop 8 (take 12 (drop (4 + 12 * r) ?bs))) = take 4 (drop (4 + 12 * r + 8) ?bs)"
    by (simp add: drop_take add.commute)
  from l have l4: "4 + 12 * r + 4 + 4 \<le> length ?bs" and l8: "4 + 12 * r + 8 + 4 \<le> length ?bs"
    by simp_all
  show "unat (nr_samples (load_rev (take 12 (drop (4 + 12 * r) ?bs)))) = file_le32 f (T + 4 + 12 * r + 4)"
    unfolding load_rev_def rev_desc.simps a le32_field [OF l4] file_le32_def
    using assms by (simp add: ac_simps)
  show "unat (offset (load_rev (take 12 (drop (4 + 12 * r) ?bs)))) = file_le32 f (T + 4 + 12 * r + 8)"
    unfolding load_rev_def rev_desc.simps b le32_field [OF l8] file_le32_def
    using assms by (simp add: ac_simps)
qed

lemma record_head:
  "take 3 (map g [T..<T + (4 + 12 * R)]) = [g T, g (T + 1), g (T + 2)]"
  "map g [T..<T + (4 + 12 * R)] ! 3 = g (T + 3)"
proof -
  have "take 3 [T..<T + (4 + 12 * R)] = [T..<T + 3]" by (rule take_upt) simp
  also have "\<dots> = [T, T + 1, T + 2]" by (simp add: upt_rec)
  finally show "take 3 (map g [T..<T + (4 + 12 * R)]) = [g T, g (T + 1), g (T + 2)]"
    by (simp add: take_map)
  show "map g [T..<T + (4 + 12 * R)] ! 3 = g (T + 3)" by simp
qed

lemma select_track_loads:
  assumes slow: "dat sf = None \<or> ucast (track_nr (track sf)) \<noteq> tn"
    and tm: "unat tn < TRACK_MAX"
    and sk: "seekable (fd sf)" and ne: "Rd_Error \<notin> set (script (fd sf))"
    and rm: "unat (nr_revolutions (header sf)) \<le> REV_MAX"
    and sig: "file_byte (fd sf) (record_at sf tn) = 0x54"
      "file_byte (fd sf) (record_at sf tn + 1) = 0x52"
      "file_byte (fd sf) (record_at sf tn + 2) = 0x4B"
    and nr: "ucast (file_byte (fd sf) (record_at sf tn + 3)) = tn"
    and total: "track_samples sf tn < 2 ^ 32" and heap: "heap (track_samples sf tn)"
  shows "\<exists>sf'. scp_select_track heap sf tn = Inr (0, sf') \<and> dat sf' = Some (track_data sf tn)"
proof -
  let ?T = "record_at sf tn"
  let ?R = "unat (nr_revolutions (header sf))"
  let ?g = "file_byte (fd sf)"
  let ?sf1 = "sf\<lparr>dat := None, datsz := 0\<rparr>"
  let ?off = "track_offset (header sf) ! unat tn"
  let ?bytes = "map ?g [?T..<?T + (4 + 12 * ?R)]"
  from slow have nf: "(dat sf \<noteq> None \<and> ucast (track_nr (track sf)) = tn) = False" by auto
  from tm have tm': "\<not> TRACK_MAX \<le> unat tn" by simp
  from rm have rm': "\<not> REV_MAX < unat (nr_revolutions (header ?sf1))" by simp
  from sk have lk: "sys_lseek (fd ?sf1) (unat ?off) = Some ((fd sf)\<lparr>pos := ?T\<rparr>)"
    by (simp add: sys_lseek_def record_at_def)
  from read_exact_at [OF ne, of ?T "4 + 12 * ?R"] obtain f2 where
    rd: "read_exact ((fd sf)\<lparr>pos := ?T\<rparr>) [] (4 + 12 * ?R) = Inr (?bytes, f2)"
    and k: "Rd_Error \<notin> set (script f2)" "seekable f2 = seekable (fd sf)"
      "content f2 = content (fd sf)" by blast
  let ?sf2 = "?sf1\<lparr>fd := f2, track := load_track ?bytes ?R (track sf)\<rparr>"
  have sg: "trk_sig (track ?sf2) = TRK"
    using sig by (simp add: load_track_def record_head TRK_def)
  have tr: "ucast (track_nr (track ?sf2)) = tn"
    using nr by (simp add: load_track_def record_head)
  have rv: "revs (track ?sf2) ! r = load_rev (take 12 (drop (4 + 12 * r) ?bytes))" if "r < ?R" for r
    using that by (simp add: load_track_def nth_append)
  have lr: "?R \<le> length (revs (track ?sf2))" by (simp add: load_track_def)
  have cnt: "unat (nr_samples (revs (track ?sf2) ! r)) = rev_count sf tn r" if "r < ?R" for r
    using record_fields(1) [OF that, of "fd sf" ?T] rv [OF that] by (simp add: rev_count_def)
  have ofs: "unat (offset (revs (track ?sf2) ! r)) = file_le32 (fd sf) (?T + 4 + 12 * r + 8)"
    if "r < ?R" for r
    using record_fields(2) [OF that, of "fd sf" ?T] rv [OF that] by simp
  define sf3 where "sf3 = scp_convert_revs [0..<?R] ?off ?sf2"
  have dist: "distinct [0..<?R]" by simp
  have inr: "\<forall>r \<in> set [0..<?R]. r < length (revs (track ?sf2))" using lr by simp
  note cv = convert_revs_result [OF dist inr, of ?off, folded sf3_def]
  have sums: "map (\<lambda>r. unat (nr_samples (revs (track ?sf2) ! r))) [0..<?R]
                = map (rev_count sf tn) [0..<?R]"
    using cnt by (intro map_cong) simp_all
  from cv have "datsz sf3 = datsz ?sf2
        + of_nat (sum_list (map (\<lambda>r. unat (nr_samples (revs (track ?sf2) ! r))) [0..<?R]))"
    by blast
  then have ds: "datsz sf3 = of_nat (track_samples sf tn)"
    by (simp only: sums) (simp add: track_samples_def)
  from total have uds: "unat (datsz sf3) = track_samples sf tn"
    unfolding ds by (simp add: unat_of_nat)
  from cv have f3: "fd sf3 = f2" by simp
  from cv have rv3: "revs (track sf3) ! r
      = (revs (track ?sf2) ! r)\<lparr>offset := ?off + offset (revs (track ?sf2) ! r)\<rparr>"
    if "r < ?R" for r
  proof -
    from that lr have "r < length (revs (track ?sf2))" by simp
    with cv that show ?thesis by simp
  qed
  have cnt3: "unat (nr_samples (revs (track sf3) ! r)) = rev_count sf tn r" if "r < ?R" for r
    using rv3 [OF that] cnt [OF that] by simp
  have ofs3: "unat (offset (revs (track sf3) ! r)) = rev_data_at sf tn r" if "r < ?R" for r
    using rv3 [OF that] ofs [OF that]
    by (simp add: rev_data_at_def record_at_def unat_word_ariths)
  define buf where "buf = (replicate (unat (datsz sf3)) (0, 0) :: sample list)"
  let ?sf4 = "sf3\<lparr>dat := Some buf, datsz := 0\<rparr>"
  have lb: "length buf = track_samples sf tn" by (simp add: buf_def uds)
  have sums4: "map (\<lambda>r. unat (nr_samples (revs (track ?sf4) ! r))) [0..<?R]
                = map (rev_count sf tn) [0..<?R]"
    using cnt3 by (intro map_cong) simp_all
  have h1: "seekable (fd ?sf4)" using f3 k(2) sk by simp
  have h2: "Rd_Error \<notin> set (script (fd ?sf4))" using f3 k(1) by simp
  have h3: "dat ?sf4 = Some buf" by simp
  have h4: "unat (datsz ?sf4) + sum_list (map (\<lambda>r. unat (nr_samples (revs (track ?sf4) ! r))) [0..<?R])
              \<le> length buf"
    by (simp only: sums4) (simp add: lb track_samples_def)
  have h5: "length buf < 2 ^ 32" using lb total by simp
  from read_revs_loaded [OF h1 h2 h3 h4 h5] obtain sf' where
    r: "scp_read_revs [0..<?R] ?sf4 = Inr (0, sf')"
    and dd: "dat sf' = Some (take (unat (datsz ?sf4)) buf
               @ concat (map (\<lambda>r. map (\<lambda>i.
                     (file_byte (fd ?sf4) (unat (offset (revs (track ?sf4) ! r)) + 2 * i),
                      file_byte (fd ?sf4) (unat (offset (revs (track ?sf4) ! r)) + 2 * i + 1)))
                     [0..<unat (nr_samples (revs (track ?sf4) ! r))]) [0..<?R])
               @ drop (unat (datsz ?sf4)
                        + sum_list (map (\<lambda>r. unat (nr_samples (revs (track ?sf4) ! r))) [0..<?R])) buf)"
    by blast
  have fb: "file_byte (fd sf3) = file_byte (fd sf)"
    using f3 k(3) by (simp add: file_byte_def fun_eq_iff)
  have pieces: "map (\<lambda>r. map (\<lambda>i.
                     (file_byte (fd ?sf4) (unat (offset (revs (track ?sf4) ! r)) + 2 * i),
                      file_byte (fd ?sf4) (unat (offset (revs (track ?sf4) ! r)) + 2 * i + 1)))
                     [0..<unat (nr_samples (revs (track ?sf4) ! r))]) [0..<?R]
                = map (rev_data sf tn) [0..<?R]"
  proof (intro map_cong refl)
    fix r assume "r \<in> set [0..<?R]"
    then have r: "r < ?R" by simp
    show "map (\<lambda>i. (file_byte (fd ?sf4) (unat (offset (revs (track ?sf4) ! r)) + 2 * i),
                      file_byte (fd ?sf4) (unat (offset (revs (track ?sf4) ! r)) + 2 * i + 1)))
                     [0..<unat (nr_samples (revs (track ?sf4) ! r))] = rev_data sf tn r"
      using cnt3 [OF r] ofs3 [OF r] by (simp add: fb rev_data_def)
  qed
  have tail: "drop (unat (datsz ?sf4)
                + sum_list (map (\<lambda>r. unat (nr_samples (revs (track ?sf4) ! r))) [0..<?R])) buf = []"
    by (simp only: sums4) (simp add: lb track_samples_def)
  have "dat sf' = Some (track_data sf tn)"
    using dd by (simp only: pieces tail) (simp add: track_data_def)
  moreover have "scp_select_track heap sf tn = scp_read_revs [0..<?R] ?sf4"
  proof -
    have hp: "heap (unat (datsz sf3))" using heap uds by simp
    show ?thesis
      using nf tm' lk rm' rd sg tr hp
      by (auto simp add: scp_select_track_def Let_def sf3_def buf_def)
  qed
  ultimately show ?thesis using r by simp
qed

text \<open>
  Claim C8. A read of \<open>n\<close> bytes from a descriptor that holds only \<open>m < n\<close> more
  bytes, whatever interrupted and short calls happen on the way and as long as no call
  fails with a device error, completes: the destination holds the \<open>m\<close> bytes followed
  by \<open>n - m\<close> zero bytes. And the loader: on a seekable image without device error, for
  a track that is not the one loaded, whose record has the signature and the track index
  and whose samples the allocator can serve, \<^verbatim>\<open>scp_select_track\<close> returns 0 with the
  buffer that the layout of the file prescribes when the file is read with zeros past its
  end: for each revolution in order, as many samples as the record counts, two bytes each,
  from the revolution's offset. A capture that is cut off anywhere, in the samples or in
  the record itself, is loaded, and what is missing of it is zero.
\<close>

theorem read_exact_zero_fill:
  assumes "length (content f) - pos f = m" and "m < n" and "Rd_Error \<notin> set (script f)"
  shows "(\<exists>f'. read_exact f [] n = Inr (drop (pos f) (content f) @ replicate (n - m) 0, f'))
         \<and> ((dat sf = None \<or> ucast (track_nr (track sf)) \<noteq> tn) \<and> unat tn < TRACK_MAX
              \<and> seekable (fd sf) \<and> Rd_Error \<notin> set (script (fd sf))
              \<and> unat (nr_revolutions (header sf)) \<le> REV_MAX \<and> record_valid sf tn
              \<and> track_samples sf tn < 2 ^ 32 \<and> heap (track_samples sf tn)
            \<longrightarrow> (\<exists>sf'. scp_select_track heap sf tn = Inr (0, sf')
                    \<and> dat sf' = Some (track_data sf tn)))"
proof (intro conjI impI)
  from read_exact_result [OF assms(3), of "[]" n] assms(1,2)
  show "\<exists>f'. read_exact f [] n = Inr (drop (pos f) (content f) @ replicate (n - m) 0, f')"
    by (auto simp: unread_def)
next
  assume h: "(dat sf = None \<or> ucast (track_nr (track sf)) \<noteq> tn) \<and> unat tn < TRACK_MAX
              \<and> seekable (fd sf) \<and> Rd_Error \<notin> set (script (fd sf))
              \<and> unat (nr_revolutions (header sf)) \<le> REV_MAX \<and> record_valid sf tn
              \<and> track_samples sf tn < 2 ^ 32 \<and> heap (track_samples sf tn)"
  then have v: "record_valid sf tn" by simp
  show "\<exists>sf'. scp_select_track heap sf tn = Inr (0, sf') \<and> dat sf' = Some (track_data sf tn)"
  proof (rule select_track_loads)
    from h show "dat sf = None \<or> ucast (track_nr (track sf)) \<noteq> tn" by simp
    from h show "unat tn < TRACK_MAX" by simp
    from h show "seekable (fd sf)" by simp
    from h show "Rd_Error \<notin> set (script (fd sf))" by simp
    from h show "unat (nr_revolutions (header sf)) \<le> REV_MAX" by simp
    from v show "file_byte (fd sf) (record_at sf tn) = 0x54" by (simp add: record_valid_def)
    from v show "file_byte (fd sf) (record_at sf tn + 1) = 0x52" by (simp add: record_valid_def)
    from v show "file_byte (fd sf) (record_at sf tn + 2) = 0x4B" by (simp add: record_valid_def)
    from v show "ucast (file_byte (fd sf) (record_at sf tn + 3)) = tn" by (simp add: record_valid_def)
    from h show "track_samples sf tn < 2 ^ 32" by simp
    from h show "heap (track_samples sf tn)" by simp
  qed
qed

lemma cut_image_bytes:
  "length cut_image = 707"
  "cut_image ! 688 = 0x54" "cut_image ! 689 = 0x52" "cut_image ! 690 = 0x4B" "cut_image ! 691 = 0"
  "cut_image ! 696 = 3" "cut_image ! 697 = 0" "cut_image ! 698 = 0" "cut_image ! 699 = 0"
  "cut_image ! 700 = 16" "cut_image ! 701 = 0" "cut_image ! 702 = 0" "cut_image ! 703 = 0"
  "cut_image ! 704 = 0x12" "cut_image ! 705 = 0x34" "cut_image ! 706 = 0x56"
  by (simp_all add: cut_image_def nth_append)

lemma cut_session_fields:
  "dat cut_session = None" "seekable (fd cut_session)" "script (fd cut_session) = [Rd_Retry, Rd_Short 1]"
  "content (fd cut_session) = cut_image" "unat (nr_revolutions (header cut_session)) = 1"
  "record_at cut_session 0 = 688"
  by (simp_all add: cut_session_def zero_session_def record_at_def TRACK_MAX_def)

lemma cut_session_layout:
  "record_valid cut_session 0" "rev_count cut_session 0 0 = 3" "rev_data_at cut_session 0 0 = 704"
  by (simp_all add: record_valid_def rev_count_def rev_data_at_def file_le32_def file_byte_def
      cut_session_fields cut_image_bytes)

lemma cut_session_track:
  "track_samples cut_session 0 = 3"
  "track_data cut_session 0 = [(0x12, 0x34), (0x56, 0), (0, 0)]"
proof -
  show "track_samples cut_session 0 = 3"
    by (simp add: track_samples_def cut_session_fields cut_session_layout)
  have "[0..<3] = [0, 1, 2 :: nat]" by (simp add: upt_rec)
  then show "track_data cut_session 0 = [(0x12, 0x34), (0x56, 0), (0, 0)]"
    by (simp add: track_data_def rev_data_def cut_session_fields cut_session_layout file_byte_def
        cut_image_bytes)
qed

text \<open>
  The example: a read of four bytes, one byte before the end of a file of three, through
  an interrupted and a short call; and the loading of track 0 of the image that is cut off
  in the middle of its second sample.
\<close>

theorem read_exact_zero_fill_witness:
  "(\<exists>f'. read_exact \<lparr>content = [1, 2, 3], pos = 1, seekable = True,
                      script = [Rd_Retry, Rd_Short 1]\<rparr> [] 4 = Inr ([2, 3, 0, 0], f'))
   \<and> (\<exists>sf'. scp_select_track (\<lambda>n. True) cut_session 0 = Inr (0, sf')
          \<and> dat sf' = Some [(0x12, 0x34), (0x56, 0), (0, 0)])"
proof -
  let ?f = "\<lparr>content = [1, 2, 3], pos = 1, seekable = True, script = [Rd_Retry, Rd_Short 1]\<rparr>"
  have h1: "length (content ?f) - pos ?f = 2" by simp
  have h2: "(2 :: nat) < 4" by simp
  have h3: "Rd_Error \<notin> set (script ?f)" by simp
  have h4: "(dat cut_session = None \<or> ucast (track_nr (track cut_session)) \<noteq> (0 :: u32))
              \<and> unat (0 :: u32) < TRACK_MAX
              \<and> seekable (fd cut_session) \<and> Rd_Error \<notin> set (script (fd cut_session))
              \<and> unat (nr_revolutions (header cut_session)) \<le> REV_MAX
              \<and> record_valid cut_session 0
              \<and> track_samples cut_session 0 < 2 ^ 32 \<and> (\<lambda>n. True) (track_samples cut_session 0)"
    by (simp add: cut_session_fields cut_session_layout cut_session_track TRACK_MAX_def REV_MAX_def)
  have e1: "drop (pos ?f) (content ?f) @ replicate (4 - 2) 0 = [2, 3, 0, 0]"
    by (simp add: numeral_2_eq_2)
  note t = read_exact_zero_fill [OF h1 h2 h3, of cut_session 0 "\<lambda>n. True"]
  from t have a: "\<exists>f'. read_exact ?f [] 4 =
      Inr (drop (pos ?f) (content ?f) @ replicate (4 - 2) 0, f')" by (rule conjunct1)
  from t [THEN conjunct2, THEN mp, OF h4]
  have b: "\<exists>sf'. scp_select_track (\<lambda>n. True) cut_session 0 = Inr (0, sf')
          \<and> dat sf' = Some (track_data cut_session 0)" .
  from a b show ?thesis by (simp only: e1 cut_session_track(2))
qed

end
